theory Spec2Isabelle
  imports Main "HOL-Library.AList" "HOL-Library.List_Lexorder" "HOL-Library.Product_Lexorder"
    "HOL-Library.Char_ord"
begin

section \<open>Python values used by the rule-inference code\<close>

text \<open>
  Exceptions that the modelled code can raise. Every raise of the source is a branch
  returning \<open>Inl\<close> of one of these.
\<close>

datatype py_error = KeyError | TypeError | AttributeError | StopIteration | RuntimeError

text \<open>
  Truthiness of an \<open>Optional[str]\<close>: \<open>None\<close> and the empty string are both falsy.
\<close>

definition truthy :: "string option \<Rightarrow> bool" where
  "truthy l = (case l of None \<Rightarrow> False | Some s \<Rightarrow> s \<noteq> [])"

text \<open>\<open>str.split(sep)\<close> for a one-character separator: always at least one piece.\<close>

fun str_split :: "char \<Rightarrow> string \<Rightarrow> string list" where
  "str_split c [] = [[]]"
| "str_split c (x # xs) =
     (if x = c then [] # str_split c xs
      else (case str_split c xs of
              [] \<Rightarrow> [[x]]
            | p # ps \<Rightarrow> (x # p) # ps))"

section \<open>Labels (rule\_graph.py)\<close>

text \<open>\<open>_is_combined\<close>: \<open>label.find(';') >= 0\<close>.\<close>

definition is_combined :: "string \<Rightarrow> bool" where
  "is_combined label = (CHR '';'' \<in> set label)"

text \<open>\<open>_split_label\<close>: the first two pieces, an empty piece read as \<open>None\<close>.\<close>

definition split_label :: "string \<Rightarrow> string option \<times> string option" where
  "split_label label =
     (let labels = str_split CHR '';'' label;
          left_label = (if hd labels \<noteq> [] then Some (hd labels) else None);
          right_label = (if length labels > 1 \<and> labels ! 1 \<noteq> [] then Some (labels ! 1) else None)
      in (left_label, right_label))"

text \<open>\<open>_combine_labels\<close>.\<close>

definition combine_labels :: "string option \<Rightarrow> string option \<Rightarrow> string" where
  "combine_labels left_label right_label =
     (let left_string_label = (if truthy left_label then the left_label else []);
          right_string_label = (if truthy right_label then the right_label else [])
      in if left_string_label \<noteq> right_string_label
         then left_string_label @ '';'' @ right_string_label
         else left_string_label)"

lemma str_split_nonempty: "str_split c s \<noteq> []"
  by (induction s) (auto split: list.splits)

lemma str_split_sizes:
  "c \<in> set s \<Longrightarrow> p \<in> set (str_split c s) \<Longrightarrow> length p < length s"
proof (induction s arbitrary: p)
  case Nil
  then show ?case by simp
next
  case (Cons x xs)
  have le: "\<And>q. q \<in> set (str_split c xs) \<Longrightarrow> length q \<le> length xs"
  proof -
    fix q assume q: "q \<in> set (str_split c xs)"
    show "length q \<le> length xs"
    proof (cases "c \<in> set xs")
      case True
      with Cons.IH q show ?thesis by fastforce
    next
      case False
      have "\<And>ys. c \<notin> set ys \<Longrightarrow> str_split c ys = [ys]"
      proof -
        fix ys show "c \<notin> set ys \<Longrightarrow> str_split c ys = [ys]"
          by (induction ys) auto
      qed
      with False q show ?thesis by simp
    qed
  qed
  show ?case
  proof (cases "x = c")
    case True
    with Cons.prems(2) le show ?thesis by fastforce
  next
    case False
    with Cons.prems(1) have cin: "c \<in> set xs" by simp
    obtain q qs where qs: "str_split c xs = q # qs"
      using str_split_nonempty by (cases "str_split c xs") auto
    with False Cons.prems(2) have "p = x # q \<or> p \<in> set qs" by auto
    then show ?thesis
    proof
      assume "p = x # q"
      moreover have "length q < length xs" using Cons.IH[OF cin] qs by simp
      ultimately show ?thesis by simp
    next
      assume "p \<in> set qs"
      then have "length p < length xs" using Cons.IH[OF cin] qs by simp
      then show ?thesis by simp
    qed
  qed
qed

lemma split_label_fst_size:
  "is_combined s \<Longrightarrow> fst (split_label s) = Some p \<Longrightarrow> length p < length s"
  using str_split_sizes[of "CHR '';''" s "hd (str_split CHR '';'' s)"] str_split_nonempty[of "CHR '';''" s]
  by (auto simp: split_label_def is_combined_def Let_def split: if_splits)

lemma split_label_snd_size:
  "is_combined s \<Longrightarrow> snd (split_label s) = Some p \<Longrightarrow> length p < length s"
  using str_split_sizes[of "CHR '';''" s "str_split CHR '';'' s ! 1"]
  by (auto simp: split_label_def is_combined_def Let_def split: if_splits)

text \<open>
  \<open>_compare_labels(supergraph_label, subgraph_label)\<close>. Two combined labels are compared
  half by half; otherwise an absent (or empty) supergraph label matches only an absent
  subgraph label, the wildcard matches any present supergraph label, and everything else
  is compared for equality.
\<close>

function compare_labels :: "string option \<Rightarrow> string option \<Rightarrow> bool" where
  "compare_labels supergraph_label subgraph_label =
     (if truthy subgraph_label \<and> truthy supergraph_label
         \<and> is_combined (the subgraph_label) \<and> is_combined (the supergraph_label)
      then compare_labels (fst (split_label (the supergraph_label))) (fst (split_label (the subgraph_label)))
         \<and> compare_labels (snd (split_label (the supergraph_label))) (snd (split_label (the subgraph_label)))
      else if \<not> truthy supergraph_label then \<not> truthy subgraph_label
      else if subgraph_label = Some ''*'' then True
      else subgraph_label = supergraph_label)"
  by pat_completeness auto
termination
proof (relation "measure (\<lambda>(sup, sub). case sub of None \<Rightarrow> 0 | Some s \<Rightarrow> length s)")
  show "wf (measure (\<lambda>(sup, sub). case sub of None \<Rightarrow> 0 | Some s \<Rightarrow> length s))" by simp
next
  fix supergraph_label subgraph_label :: "string option"
  assume a: "truthy subgraph_label \<and> truthy supergraph_label
         \<and> is_combined (the subgraph_label) \<and> is_combined (the supergraph_label)"
  then obtain s where s: "subgraph_label = Some s" "s \<noteq> []" "is_combined s"
    by (cases subgraph_label) (auto simp: truthy_def)
  show "((fst (split_label (the supergraph_label)), fst (split_label (the subgraph_label))),
         (supergraph_label, subgraph_label))
        \<in> measure (\<lambda>(sup, sub). case sub of None \<Rightarrow> 0 | Some s \<Rightarrow> length s)"
    using s split_label_fst_size[of s] by (auto split: option.splits)
  show "((snd (split_label (the supergraph_label)), snd (split_label (the subgraph_label))),
         (supergraph_label, subgraph_label))
        \<in> measure (\<lambda>(sup, sub). case sub of None \<Rightarrow> 0 | Some s \<Rightarrow> length s)"
    using s split_label_snd_size[of s] by (auto split: option.splits)
qed

declare compare_labels.simps [simp del]

section \<open>Dictionaries and iteration with exceptions\<close>

text \<open>
  A Python \<open>dict\<close> is an association list with distinct keys in insertion order.
  Storing under a key that is present replaces the value in place; a new key goes last.
\<close>

definition dict_of :: "('k \<times> 'v) list \<Rightarrow> ('k \<times> 'v) list" where
  "dict_of kvs = foldl (\<lambda>d (k, v). AList.update k v d) [] kvs"

text \<open>Evaluating a comprehension: the first element that raises ends the evaluation.\<close>

fun collect :: "('e + 'a) list \<Rightarrow> 'e + 'a list" where
  "collect [] = Inr []"
| "collect (x # xs) =
     (case x of
        Inl e \<Rightarrow> Inl e
      | Inr v \<Rightarrow> (case collect xs of Inl e \<Rightarrow> Inl e | Inr vs \<Rightarrow> Inr (v # vs)))"

section \<open>Graphs of the graph library and their canonical handles (canonicalisation.py)\<close>

text \<open>
  A vertex of the graph library is identified by its integer id; a graph lists its
  vertices (id, label) and its undirected edges (source id, target id, label).
\<close>

type_synonym vertex = nat

record mod_graph =
  g_vertices :: "(vertex \<times> string) list"
  g_edges :: "(vertex \<times> vertex \<times> string) list"

text \<open>
  \<open>CanonicalGraph\<close>: the graph, its canonical string and the generators of its
  automorphism group as the graph library reports them (each a map on vertices).
\<close>

record CanonicalGraph =
  graph :: mod_graph
  canonical_smiles :: string
  automorphism_generators :: "(vertex \<Rightarrow> vertex) list"

definition cg_vertices :: "CanonicalGraph \<Rightarrow> vertex list" where
  "cg_vertices g = map fst (g_vertices (graph g))"

section \<open>Morphisms (morphism.py)\<close>

text \<open>
  A \<open>Morphism\<close> keeps the dictionary it was built from and its fingerprint, the sorted
  tuple of the dictionary's items. Equality and order are those of the fingerprints.
\<close>

record Morphism =
  vertex_map :: "(vertex \<times> vertex) list"
  fingerprint :: "(vertex \<times> vertex) list"

definition mk_Morphism :: "(vertex \<times> vertex) list \<Rightarrow> Morphism" where
  "mk_Morphism vm = \<lparr>vertex_map = vm, fingerprint = sort vm\<rparr>"

definition Morphism_eq :: "Morphism \<Rightarrow> Morphism \<Rightarrow> bool" where
  "Morphism_eq self other = (fingerprint self = fingerprint other)"

definition Morphism_lt :: "Morphism \<Rightarrow> Morphism \<Rightarrow> bool" where
  "Morphism_lt self other = (fingerprint self < fingerprint other)"

definition Morphism_le :: "Morphism \<Rightarrow> Morphism \<Rightarrow> bool" where
  "Morphism_le self other = (fingerprint self \<le> fingerprint other)"

definition items :: "Morphism \<Rightarrow> (vertex \<times> vertex) list" where
  "items self = vertex_map self"

text \<open>\<open>__getitem__\<close>: a missing key raises \<open>KeyError\<close>.\<close>

definition getitem :: "Morphism \<Rightarrow> vertex \<Rightarrow> py_error + vertex" where
  "getitem self item = (case map_of (vertex_map self) item of None \<Rightarrow> Inl KeyError | Some v \<Rightarrow> Inr v)"

text \<open>\<open>__neg__\<close>: the swapped dictionary (a later item wins where images coincide).\<close>

definition Morphism_neg :: "Morphism \<Rightarrow> Morphism" where
  "Morphism_neg self = mk_Morphism (dict_of (map (\<lambda>(range_vertex, image_vertex). (image_vertex, range_vertex)) (items self)))"

text \<open>\<open>__add__\<close>: \<open>self\<close> first, then \<open>other\<close>.\<close>

definition Morphism_add :: "Morphism \<Rightarrow> Morphism \<Rightarrow> py_error + Morphism" where
  "Morphism_add self other =
     (case collect (map (\<lambda>(range_vertex, image_vertex).
                           case getitem other image_vertex of
                             Inl e \<Rightarrow> Inl e
                           | Inr v \<Rightarrow> Inr (range_vertex, v)) (items self)) of
        Inl e \<Rightarrow> Inl e
      | Inr kvs \<Rightarrow> Inr (mk_Morphism (dict_of kvs)))"

definition identity :: "mod_graph \<Rightarrow> Morphism" where
  "identity g = mk_Morphism (dict_of (map (\<lambda>(v, l). (v, v)) (g_vertices g)))"

definition from_automorphism :: "mod_graph \<Rightarrow> (vertex \<Rightarrow> vertex) \<Rightarrow> Morphism" where
  "from_automorphism g automorphism = mk_Morphism (dict_of (map (\<lambda>(v, l). (v, automorphism v)) (g_vertices g)))"

text \<open>\<open>_from_automorphism_generators\<close>: the generators in order, then the identity.\<close>

definition from_automorphism_generators :: "CanonicalGraph \<Rightarrow> Morphism list" where
  "from_automorphism_generators g =
     map (from_automorphism (graph g)) (automorphism_generators g) @ [identity (graph g)]"

text \<open>
  \<open>canonicalise\<close>: the inner loop over the image graph's automorphisms and the outer
  loop over the range graph's, both carrying the smallest candidate so far.
\<close>

fun canonicalise_image :: "Morphism \<Rightarrow> Morphism list \<Rightarrow> Morphism \<Rightarrow> py_error + Morphism" where
  "canonicalise_image partial_candidate [] smallest_candidate = Inr smallest_candidate"
| "canonicalise_image partial_candidate (image_automorphism # rest) smallest_candidate =
     (case Morphism_add partial_candidate image_automorphism of
        Inl e \<Rightarrow> Inl e
      | Inr candidate \<Rightarrow>
          canonicalise_image partial_candidate rest
            (if Morphism_lt candidate smallest_candidate then candidate else smallest_candidate))"

fun canonicalise_range :: "Morphism \<Rightarrow> Morphism list \<Rightarrow> Morphism list \<Rightarrow> Morphism \<Rightarrow> py_error + Morphism" where
  "canonicalise_range self [] image_automorphisms smallest_candidate = Inr smallest_candidate"
| "canonicalise_range self (range_automorphism # rest) image_automorphisms smallest_candidate =
     (case Morphism_add range_automorphism self of
        Inl e \<Rightarrow> Inl e
      | Inr partial_candidate \<Rightarrow>
          (case canonicalise_image partial_candidate image_automorphisms smallest_candidate of
             Inl e \<Rightarrow> Inl e
           | Inr smallest \<Rightarrow> canonicalise_range self rest image_automorphisms smallest))"

definition canonicalise :: "Morphism \<Rightarrow> CanonicalGraph \<Rightarrow> CanonicalGraph \<Rightarrow> py_error + Morphism" where
  "canonicalise self range_graph image_graph =
     canonicalise_range self (from_automorphism_generators range_graph)
       (from_automorphism_generators image_graph) self"

text \<open>
  What \<open>canonicalise\<close> is to range over, written without the code: the generators of a
  graph and the identity, as functions on vertices, and the composite that sends a vertex
  \<open>v\<close> of the range graph to \<open>i (m (r v))\<close>.
\<close>

definition symmetries :: "CanonicalGraph \<Rightarrow> (vertex \<Rightarrow> vertex) set" where
  "symmetries G = set (automorphism_generators G) \<union> {id}"

definition composite :: "(vertex \<Rightarrow> vertex) \<Rightarrow> (vertex \<times> vertex) list \<Rightarrow> (vertex \<Rightarrow> vertex)
    \<Rightarrow> CanonicalGraph \<Rightarrow> Morphism" where
  "composite r m i R = mk_Morphism (map (\<lambda>v. (v, i (the (map_of m (r v))))) (cg_vertices R))"

text \<open>A Python \<open>set\<close> is a list without equal elements, in insertion order; \<open>add\<close> keeps
  the element that is already there.\<close>

definition set_add :: "('a \<Rightarrow> 'a \<Rightarrow> bool) \<Rightarrow> 'a list \<Rightarrow> 'a \<Rightarrow> 'a list" where
  "set_add eq acc x = (if \<exists>y \<in> set acc. eq y x then acc else acc @ [x])"

section \<open>Graphs of the network library (networkx\_interface.py)\<close>

text \<open>
  An undirected graph of the network library with one attribute, \<open>label\<close>, on every node
  and edge. Nodes are a dictionary; an edge is stored once and found under either
  orientation. Every \<open>add_edge\<close> of the source is between nodes that the graph has.
\<close>

record nx_graph =
  nx_nodes :: "(vertex \<times> string) list"
  nx_edges :: "((vertex \<times> vertex) \<times> string) list"

definition nx_empty :: nx_graph where
  "nx_empty = \<lparr>nx_nodes = [], nx_edges = []\<rparr>"

definition nx_add_node :: "nx_graph \<Rightarrow> vertex \<Rightarrow> string \<Rightarrow> nx_graph" where
  "nx_add_node G n label = G\<lparr>nx_nodes := AList.update n label (nx_nodes G)\<rparr>"

definition same_edge :: "vertex \<times> vertex \<Rightarrow> vertex \<times> vertex \<Rightarrow> bool" where
  "same_edge e f = (e = f \<or> e = (snd f, fst f))"

fun nx_put_edge :: "((vertex \<times> vertex) \<times> string) list \<Rightarrow> vertex \<times> vertex \<Rightarrow> string
    \<Rightarrow> ((vertex \<times> vertex) \<times> string) list" where
  "nx_put_edge [] e label = [(e, label)]"
| "nx_put_edge ((f, l) # es) e label =
     (if same_edge f e then (f, label) # es else (f, l) # nx_put_edge es e label)"

definition nx_add_edge :: "nx_graph \<Rightarrow> vertex \<Rightarrow> vertex \<Rightarrow> string \<Rightarrow> nx_graph" where
  "nx_add_edge G u v label = G\<lparr>nx_edges := nx_put_edge (nx_edges G) (u, v) label\<rparr>"

definition nx_has_edge :: "nx_graph \<Rightarrow> vertex \<Rightarrow> vertex \<Rightarrow> bool" where
  "nx_has_edge G u v = (\<exists>(f, l) \<in> set (nx_edges G). same_edge f (u, v))"

text \<open>\<open>G.edges(node)\<close>: the edges at a node.\<close>

definition nx_edges_at :: "nx_graph \<Rightarrow> vertex \<Rightarrow> ((vertex \<times> vertex) \<times> string) list" where
  "nx_edges_at G n = filter (\<lambda>((u, v), l). u = n \<or> v = n) (nx_edges G)"

text \<open>Assignments \<open>G.nodes[n]["label"] = l\<close> and \<open>G.edges[u, v]["label"] = l\<close>: a missing
  node or edge raises \<open>KeyError\<close>.\<close>

definition nx_set_node_label :: "nx_graph \<Rightarrow> vertex \<Rightarrow> string \<Rightarrow> py_error + nx_graph" where
  "nx_set_node_label G n label =
     (if n \<in> fst ` set (nx_nodes G) then Inr (nx_add_node G n label) else Inl KeyError)"

definition nx_set_edge_label :: "nx_graph \<Rightarrow> vertex \<Rightarrow> vertex \<Rightarrow> string \<Rightarrow> py_error + nx_graph" where
  "nx_set_edge_label G u v label =
     (if nx_has_edge G u v then Inr (nx_add_edge G u v label) else Inl KeyError)"

text \<open>\<open>graph_to_nx_graph(graph, use_indices=True)\<close> with the default relabelling: every
  vertex, and every edge that is not a \<open>no_edge\<close> marker.\<close>

definition graph_to_nx_graph :: "mod_graph \<Rightarrow> nx_graph" where
  "graph_to_nx_graph g =
     foldl (\<lambda>G (s, t, l). if l = ''no_edge'' then G else nx_add_edge G s t l)
       (foldl (\<lambda>G (v, l). nx_add_node G v l) nx_empty (g_vertices g))
       (g_edges g)"

section \<open>Rules of the graph library and the rule builder (rule\_builder.py)\<close>

text \<open>
  A rule of the graph library: every vertex and edge has a left and a right label, either
  of which may be absent (the element is null on that side).
\<close>

record mod_rule =
  r_name :: string
  r_vertices :: "(vertex \<times> string option \<times> string option) list"
  r_edges :: "(vertex \<times> vertex \<times> string option \<times> string option) list"

text \<open>Keys of a \<open>RuleSideGraph\<close>: a vertex id, or an \<open>EdgeTuple\<close> (the sorted endpoints).\<close>

datatype elem_key = VKey vertex | EKey vertex vertex


type_synonym RuleSideGraph = "(elem_key \<times> string) list"

record RuleBuilder =
  rb_id :: string
  rb_left :: RuleSideGraph
  rb_context :: RuleSideGraph
  rb_right :: RuleSideGraph





definition side_vertices :: "RuleSideGraph \<Rightarrow> vertex list" where
  "side_vertices side = concat (map (\<lambda>(k, l). case k of VKey v \<Rightarrow> [v] | EKey s t \<Rightarrow> []) side)"

text \<open>\<open>RuleBuilder.vertices\<close>: the set of vertex ids of the three sides.\<close>

definition rb_vertices :: "RuleBuilder \<Rightarrow> vertex set" where
  "rb_vertices b = set (side_vertices (rb_left b)) \<union> set (side_vertices (rb_context b))
     \<union> set (side_vertices (rb_right b))"


datatype side = LeftSide | RightSide










section \<open>What the graph and network libraries compute\<close>

text \<open>
  The libraries are not part of the repository. Their functions are parameters of the
  model, collected in one record:
  \<^item> \<open>canonicalise_gml\<close>: the graph library parses the GML text of a network-library
    graph, and the canonicaliser wraps the result with its canonical string and the
    generators of its automorphism group;
  \<^item> \<open>connected_components\<close>: the connected components, each a set of nodes;
  \<^item> \<open>ruleGMLString\<close>: the graph library's rule for the GML text of a rule builder;
  \<^item> \<open>isomorphisms_iter\<close> and \<open>subgraph_monomorphisms_iter\<close>: the matches of the
    network library's \<open>GraphMatcher(G1, G2, node_match, edge_match)\<close>, each a dictionary
    from nodes of \<open>G1\<close> to nodes of \<open>G2\<close>;
  \<^item> \<open>hash_str\<close>, \<open>hash_None\<close> and \<open>hash_int\<close>: the interpreter's hash of a string and of
    \<open>None\<close>, and the reduction that \<open>hash()\<close> applies to the integer a \<open>__hash__\<close> method
    returns.
\<close>

record env =
  canonicalise_gml :: "nx_graph \<Rightarrow> CanonicalGraph"
  connected_components :: "nx_graph \<Rightarrow> vertex list list"
  ruleGMLString :: "RuleBuilder \<Rightarrow> mod_rule"
  isomorphisms_iter :: "nx_graph \<Rightarrow> nx_graph \<Rightarrow> (string \<Rightarrow> string \<Rightarrow> bool) \<Rightarrow> (string \<Rightarrow> string \<Rightarrow> bool)
                          \<Rightarrow> (vertex \<times> vertex) list list"
  subgraph_monomorphisms_iter :: "nx_graph \<Rightarrow> nx_graph \<Rightarrow> (string \<Rightarrow> string \<Rightarrow> bool)
                          \<Rightarrow> (string \<Rightarrow> string \<Rightarrow> bool) \<Rightarrow> (vertex \<times> vertex) list list"
  hash_str :: "string \<Rightarrow> int"
  hash_None :: int
  hash_int :: "int \<Rightarrow> int"

text \<open>An exception that leaves the body of a generator: \<open>StopIteration\<close> becomes
  \<open>RuntimeError\<close>.\<close>

definition leave_generator :: "py_error \<Rightarrow> py_error" where
  "leave_generator e = (if e = StopIteration then RuntimeError else e)"

text \<open>Decimal digits of a number, as \<open>str\<close> and the format strings print it.\<close>

fun show_nat :: "nat \<Rightarrow> string" where
  "show_nat n = (if n < 10 then [char_of (48 + n)] else show_nat (n div 10) @ [char_of (48 + n mod 10)])"

declare show_nat.simps [simp del]

section \<open>Rule graphs (rule\_graph.py)\<close>

definition has_abstract_label :: "string \<Rightarrow> bool" where
  "has_abstract_label label = (CHR ''*'' \<in> set label)"


text \<open>\<open>_find_modified_nodes\<close>: the nodes of a component that carry a combined label or
  touch an edge that does.\<close>

definition find_modified_nodes :: "nx_graph \<Rightarrow> vertex list \<Rightarrow> vertex list" where
  "find_modified_nodes G component =
     filter (\<lambda>node. is_combined (the (map_of (nx_nodes G) node))
                   \<or> (\<exists>(e, l) \<in> set (nx_edges_at G node). is_combined l)) component"

text \<open>The loop of \<open>_nx_graph_to_mod_graph\<close> over the components: every modified node of a
  component is joined by a \<open>no_edge\<close> edge to every principal node of the components before
  it; a component without a modified node ends the function with \<open>None\<close>.\<close>

fun link_components :: "nx_graph \<Rightarrow> vertex list list \<Rightarrow> vertex list \<Rightarrow> nx_graph option" where
  "link_components G [] principal_nodes = Some G"
| "link_components G (component # rest) principal_nodes =
     (let new_principal_nodes = find_modified_nodes G component;
          G' = foldl (\<lambda>G modified_node.
                        foldl (\<lambda>G principal_node. nx_add_edge G principal_node modified_node ''no_edge'')
                          G principal_nodes)
                 G new_principal_nodes
      in if length new_principal_nodes = 0 then None
         else link_components G' rest (principal_nodes @ new_principal_nodes))"

definition nx_graph_to_mod_graph :: "env \<Rightarrow> nx_graph \<Rightarrow> CanonicalGraph option" where
  "nx_graph_to_mod_graph ev G =
     (let components = connected_components ev G
      in if length components > 1
         then (case link_components G components [] of
                 None \<Rightarrow> None
               | Some G' \<Rightarrow> Some (canonicalise_gml ev G'))
         else Some (canonicalise_gml ev G))"


text \<open>A \<open>RuleGraph\<close>: the canonical graph, the name, and the network-library copy of the
  graph that the constructor builds.\<close>

record RuleGraph =
  rg_graph :: CanonicalGraph
  rg_name :: string
  rg_nx_graph :: nx_graph

definition mk_RuleGraph :: "CanonicalGraph \<Rightarrow> string \<Rightarrow> RuleGraph" where
  "mk_RuleGraph g name = \<lparr>rg_graph = g, rg_name = name, rg_nx_graph = graph_to_nx_graph (graph g)\<rparr>"

definition RuleGraph_eq :: "RuleGraph \<Rightarrow> RuleGraph \<Rightarrow> bool" where
  "RuleGraph_eq self other = (canonical_smiles (rg_graph self) = canonical_smiles (rg_graph other))"

definition RuleGraph_lt :: "RuleGraph \<Rightarrow> RuleGraph \<Rightarrow> bool" where
  "RuleGraph_lt self other = (canonical_smiles (rg_graph self) < canonical_smiles (rg_graph other))"

text \<open>\<open>__hash__\<close> of \<open>CanonicalGraph\<close> and of \<open>RuleGraph\<close>, each read through \<open>hash()\<close>.\<close>

definition CanonicalGraph_hash :: "env \<Rightarrow> CanonicalGraph \<Rightarrow> int" where
  "CanonicalGraph_hash ev g = hash_int ev (41 * hash_str ev (canonical_smiles g))"

definition RuleGraph_hash :: "env \<Rightarrow> RuleGraph \<Rightarrow> int" where
  "RuleGraph_hash ev self = hash_int ev (19 * CanonicalGraph_hash ev (rg_graph self))"


text \<open>A vertex or an edge of a graph, with its label.\<close>

datatype element = Vert vertex string | Edge vertex vertex string

definition element_label :: "element \<Rightarrow> string" where
  "element_label el = (case el of Vert v l \<Rightarrow> l | Edge s t l \<Rightarrow> l)"

definition is_relabeled :: "element \<Rightarrow> bool" where
  "is_relabeled el = is_combined (element_label el)"

definition split_element_label :: "element \<Rightarrow> string option \<times> string option" where
  "split_element_label el = split_label (element_label el)"

definition abstract_vertices :: "RuleGraph \<Rightarrow> element list" where
  "abstract_vertices self =
     map (\<lambda>(v, l). Vert v l) (filter (\<lambda>(v, l). has_abstract_label l) (g_vertices (graph (rg_graph self))))"

definition abstract_edges :: "RuleGraph \<Rightarrow> element list" where
  "abstract_edges self =
     map (\<lambda>(s, t, l). Edge s t l) (filter (\<lambda>(s, t, l). has_abstract_label l) (g_edges (graph (rg_graph self))))"

definition abstract_elements :: "RuleGraph \<Rightarrow> element list" where
  "abstract_elements self = abstract_vertices self @ abstract_edges self"

text \<open>\<open>get_vertex\<close>: \<open>next\<close> on an exhausted generator raises \<open>StopIteration\<close>.\<close>

definition get_vertex :: "RuleGraph \<Rightarrow> nat \<Rightarrow> py_error + vertex" where
  "get_vertex self vertex_id =
     (case filter (\<lambda>(v, l). v = vertex_id) (g_vertices (graph (rg_graph self))) of
        [] \<Rightarrow> Inl StopIteration
      | (v, l) # rest \<Rightarrow> Inr v)"

definition get_edge :: "RuleGraph \<Rightarrow> vertex \<Rightarrow> vertex \<Rightarrow> (vertex \<times> vertex \<times> string) option" where
  "get_edge self source target =
     find (\<lambda>(s, t, l). (s = source \<and> t = target) \<or> (s = target \<and> t = source)) (g_edges (graph (rg_graph self)))"

definition get_adjacent_edges :: "RuleGraph \<Rightarrow> vertex \<Rightarrow> (vertex \<times> vertex \<times> string) list" where
  "get_adjacent_edges self v =
     filter (\<lambda>(s, t, l). l \<noteq> ''no_edge'' \<and> (s = v \<or> t = v)) (g_edges (graph (rg_graph self)))"

text \<open>The morphism that \<open>relabel_element\<close> and \<open>add_edge\<close> return: from the new graph's
  vertex with the id of each old vertex to that old vertex.\<close>

definition back_morphism :: "RuleGraph \<Rightarrow> RuleGraph \<Rightarrow> py_error + Morphism" where
  "back_morphism new_rule_graph self =
     (case collect (map (\<lambda>(v, l). case get_vertex new_rule_graph v of
                                     Inl e \<Rightarrow> Inl e
                                   | Inr nv \<Rightarrow> Inr (nv, v)) (g_vertices (graph (rg_graph self)))) of
        Inl e \<Rightarrow> Inl e
      | Inr kvs \<Rightarrow> Inr (mk_Morphism (dict_of kvs)))"

text \<open>\<open>relabel_element\<close>. A graph that cannot be rebuilt (\<open>None\<close>) makes the constructor
  of \<open>RuleGraph\<close> raise \<open>AttributeError\<close>.\<close>

definition relabel_element :: "env \<Rightarrow> RuleGraph \<Rightarrow> element \<Rightarrow> string \<Rightarrow> py_error + (RuleGraph \<times> Morphism)" where
  "relabel_element ev self el new_label =
     (case (case el of
              Vert v l \<Rightarrow> nx_set_node_label (rg_nx_graph self) v new_label
            | Edge s t l \<Rightarrow> nx_set_edge_label (rg_nx_graph self) s t new_label) of
        Inl e \<Rightarrow> Inl e
      | Inr new_nx_graph \<Rightarrow>
          (let element_id = (case el of Vert v l \<Rightarrow> show_nat v
                                      | Edge s t l \<Rightarrow> show_nat s @ ''-'' @ show_nat t)
           in case nx_graph_to_mod_graph ev new_nx_graph of
                None \<Rightarrow> Inl AttributeError
              | Some g \<Rightarrow>
                  (let new_rule_graph = mk_RuleGraph g (rg_name self @ ''_L'' @ element_id)
                   in case back_morphism new_rule_graph self of
                        Inl e \<Rightarrow> Inl e
                      | Inr m \<Rightarrow> Inr (new_rule_graph, m))))"

definition relabel_element_left :: "env \<Rightarrow> RuleGraph \<Rightarrow> element \<Rightarrow> string option \<Rightarrow> py_error + (RuleGraph \<times> Morphism)" where
  "relabel_element_left ev self el new_label =
     (let (left_label, right_label) = split_element_label el;
          full_new_label = combine_labels new_label right_label
      in relabel_element ev self el full_new_label)"

definition relabel_element_right :: "env \<Rightarrow> RuleGraph \<Rightarrow> element \<Rightarrow> string option \<Rightarrow> py_error + (RuleGraph \<times> Morphism)" where
  "relabel_element_right ev self el new_label =
     (let (left_label, right_label) = split_element_label el;
          full_new_label = combine_labels left_label new_label
      in relabel_element ev self el full_new_label)"

text \<open>\<open>add_edge\<close>: to an existing vertex, or to a new wildcard vertex whose id is the
  number of vertices.\<close>

definition add_edge :: "env \<Rightarrow> RuleGraph \<Rightarrow> vertex \<Rightarrow> vertex option \<Rightarrow> py_error + (RuleGraph \<times> Morphism)" where
  "add_edge ev self source target =
     (let target_id = (case target of Some t \<Rightarrow> t | None \<Rightarrow> length (g_vertices (graph (rg_graph self))));
          G1 = (case target of Some t \<Rightarrow> rg_nx_graph self
                             | None \<Rightarrow> nx_add_node (rg_nx_graph self) target_id ''*'');
          new_nx_graph = nx_add_edge G1 source target_id ''*''
      in case nx_graph_to_mod_graph ev new_nx_graph of
           None \<Rightarrow> Inl AttributeError
         | Some g \<Rightarrow>
             (let new_rule_graph = mk_RuleGraph g (rg_name self @ ''_A'' @ show_nat source @ ''-'' @ show_nat target_id)
              in case back_morphism new_rule_graph self of
                   Inl e \<Rightarrow> Inl e
                 | Inr m \<Rightarrow> Inr (new_rule_graph, m)))"

text \<open>\<open>_match_to_morphism\<close>.\<close>

definition match_to_morphism :: "RuleGraph \<Rightarrow> RuleGraph \<Rightarrow> (vertex \<times> vertex) list \<Rightarrow> py_error + Morphism" where
  "match_to_morphism range_graph image_graph match =
     (case collect (map (\<lambda>(range_vertex_index, image_vertex_index).
                           case get_vertex range_graph range_vertex_index of
                             Inl e \<Rightarrow> Inl e
                           | Inr r \<Rightarrow> (case get_vertex image_graph image_vertex_index of
                                         Inl e \<Rightarrow> Inl e
                                       | Inr i \<Rightarrow> Inr (r, i))) match) of
        Inl e \<Rightarrow> Inl e
      | Inr kvs \<Rightarrow> Inr (mk_Morphism (dict_of kvs)))"

definition equal_elements :: "string \<Rightarrow> string \<Rightarrow> bool" where
  "equal_elements graph1_label graph2_label = (graph1_label = graph2_label)"

definition compare_elements :: "string \<Rightarrow> string \<Rightarrow> bool" where
  "compare_elements supergraph_label subgraph_label = compare_labels (Some supergraph_label) (Some subgraph_label)"

text \<open>\<open>isomorphisms\<close> and \<open>embed\<close> are generators: each item is a morphism, or the exception
  that ends the generator there.\<close>

definition isomorphisms :: "env \<Rightarrow> RuleGraph \<Rightarrow> RuleGraph \<Rightarrow> (py_error + Morphism) list" where
  "isomorphisms ev self other =
     map (\<lambda>isomorphism. map_sum leave_generator id (match_to_morphism other self isomorphism))
       (isomorphisms_iter ev (rg_nx_graph other) (rg_nx_graph self) equal_elements equal_elements)"

definition embed :: "env \<Rightarrow> RuleGraph \<Rightarrow> RuleGraph \<Rightarrow> (py_error + Morphism) list" where
  "embed ev self subgraph =
     map (\<lambda>monomorphism. map_sum leave_generator Morphism_neg (match_to_morphism self subgraph monomorphism))
       (subgraph_monomorphisms_iter ev (rg_nx_graph self) (rg_nx_graph subgraph) compare_elements compare_elements)"








section \<open>Transitions (transition.py)\<close>

record Transition =
  maximal_subrule :: RuleGraph

definition Transition_eq :: "Transition \<Rightarrow> Transition \<Rightarrow> bool" where
  "Transition_eq self other = RuleGraph_eq (maximal_subrule self) (maximal_subrule other)"

definition Transition_lt :: "Transition \<Rightarrow> Transition \<Rightarrow> bool" where
  "Transition_lt self other = RuleGraph_lt (maximal_subrule self) (maximal_subrule other)"

definition Transition_hash :: "env \<Rightarrow> Transition \<Rightarrow> int" where
  "Transition_hash ev self = hash_int ev (17 * RuleGraph_hash ev (maximal_subrule self))"

text \<open>\<open>any\<close> over a generator of morphisms: a morphism is true when it is not empty.\<close>

fun any_morphism :: "(py_error + Morphism) list \<Rightarrow> py_error + bool" where
  "any_morphism [] = Inr False"
| "any_morphism (Inl e # rest) = Inl e"
| "any_morphism (Inr m # rest) = (if length (fingerprint m) > 0 then Inr True else any_morphism rest)"

text \<open>\<open>can_embed\<close>; the pattern of a node may be \<open>None\<close>, which has no \<open>_nx_graph\<close>.\<close>

definition can_embed :: "env \<Rightarrow> Transition \<Rightarrow> RuleGraph option \<Rightarrow> py_error + bool" where
  "can_embed ev self pattern =
     (case pattern of
        None \<Rightarrow> Inl AttributeError
      | Some p \<Rightarrow> any_morphism (embed ev (maximal_subrule self) p))"

section \<open>Embeddings (embedding.py)\<close>

record Embedding =
  e_pattern :: RuleGraph
  host_transition :: Transition
  morphism :: Morphism

definition mk_Embedding :: "RuleGraph \<Rightarrow> Transition \<Rightarrow> Morphism \<Rightarrow> Embedding" where
  "mk_Embedding pattern host m = \<lparr>e_pattern = pattern, host_transition = host, morphism = m\<rparr>"

definition Embedding_eq :: "Embedding \<Rightarrow> Embedding \<Rightarrow> bool" where
  "Embedding_eq self other =
     (Transition_eq (host_transition self) (host_transition other)
      \<and> RuleGraph_eq (e_pattern self) (e_pattern other)
      \<and> Morphism_eq (morphism self) (morphism other))"

definition edge_to_hashable :: "vertex \<times> vertex \<times> string \<Rightarrow> vertex \<times> vertex" where
  "edge_to_hashable e = (let (s, t, l) = e in (min s t, max s t))"

definition pattern_edge_to_host :: "Embedding \<Rightarrow> vertex \<times> vertex \<times> string
    \<Rightarrow> py_error + (vertex \<times> vertex \<times> string) option" where
  "pattern_edge_to_host self e =
     (let (s, t, l) = e
      in case getitem (morphism self) s of
           Inl err \<Rightarrow> Inl err
         | Inr hs \<Rightarrow> (case getitem (morphism self) t of
                        Inl err \<Rightarrow> Inl err
                      | Inr ht \<Rightarrow> Inr (get_edge (maximal_subrule (host_transition self)) hs ht)))"

text \<open>A generator's items up to and including the first exception.\<close>

fun until_error :: "('e + 'a) list \<Rightarrow> ('e + 'a) list" where
  "until_error [] = []"
| "until_error (Inl e # rest) = [Inl e]"
| "until_error (Inr x # rest) = Inr x # until_error rest"

text \<open>\<open>_edge_additions\<close>, the body of the inner loop for one host edge that the pattern
  does not have yet.\<close>

definition edge_addition :: "env \<Rightarrow> Embedding \<Rightarrow> vertex \<Rightarrow> vertex \<Rightarrow> vertex \<times> vertex \<times> string
    \<Rightarrow> py_error + (RuleGraph \<times> Morphism)" where
  "edge_addition ev self pattern_vertex host_vertex host_edge =
     (let (hs, ht, hl) = host_edge;
          other_endpoint = (if hs = host_vertex then ht else hs);
          other_endpoint_range =
            map_option fst (find (\<lambda>(range_vertex, image_vertex). image_vertex = other_endpoint)
                              (items (morphism self)))
      in case add_edge ev (e_pattern self) pattern_vertex other_endpoint_range of
           Inl e \<Rightarrow> Inl e
         | Inr (addition_pattern, addition_morphism) \<Rightarrow>
             (case Morphism_add addition_morphism (morphism self) of
                Inl e \<Rightarrow> Inl e
              | Inr composed \<Rightarrow>
                  (let vertex_map = dict_of (items composed)
                   in if other_endpoint_range = None
                      then (case get_vertex addition_pattern
                                   (length (g_vertices (graph (rg_graph (e_pattern self))))) of
                              Inl e \<Rightarrow> Inl e
                            | Inr nv \<Rightarrow>
                                Inr (addition_pattern, mk_Morphism (AList.update nv other_endpoint vertex_map)))
                      else Inr (addition_pattern, mk_Morphism vertex_map))))"

text \<open>The outer loop's body for one pattern vertex.\<close>

definition edge_additions_at :: "env \<Rightarrow> Embedding \<Rightarrow> vertex \<Rightarrow> (py_error + (RuleGraph \<times> Morphism)) list" where
  "edge_additions_at ev self pattern_vertex =
     (case collect (map (\<lambda>pattern_edge.
                           case pattern_edge_to_host self pattern_edge of
                             Inl e \<Rightarrow> Inl e
                           | Inr None \<Rightarrow> Inl AttributeError
                           | Inr (Some host_edge) \<Rightarrow> Inr (edge_to_hashable host_edge))
                      (get_adjacent_edges (e_pattern self) pattern_vertex)) of
        Inl e \<Rightarrow> [Inl e]
      | Inr existing_edges \<Rightarrow>
          (case getitem (morphism self) pattern_vertex of
             Inl e \<Rightarrow> [Inl e]
           | Inr host_vertex \<Rightarrow>
               map (edge_addition ev self pattern_vertex host_vertex)
                 (filter (\<lambda>host_edge. edge_to_hashable host_edge \<notin> set existing_edges)
                    (get_adjacent_edges (maximal_subrule (host_transition self)) host_vertex))))"

definition edge_additions :: "env \<Rightarrow> Embedding \<Rightarrow> (py_error + (RuleGraph \<times> Morphism)) list" where
  "edge_additions ev self =
     map (map_sum leave_generator id)
       (until_error (concat (map (\<lambda>(v, l). edge_additions_at ev self v)
                               (g_vertices (graph (rg_graph (e_pattern self)))))))"

text \<open>\<open>_label_specifications\<close>, the loop body for one abstract element of the pattern.\<close>

definition label_specification :: "env \<Rightarrow> Embedding \<Rightarrow> element \<Rightarrow> py_error + (RuleGraph \<times> Morphism)" where
  "label_specification ev self pattern_element =
     (case (case pattern_element of
              Vert v l \<Rightarrow>
                (case getitem (morphism self) v of
                   Inl e \<Rightarrow> Inl e
                 | Inr hv \<Rightarrow>
                     Inr (map_option (\<lambda>(w, hl). Vert w hl)
                            (find (\<lambda>(w, hl). w = hv)
                               (g_vertices (graph (rg_graph (maximal_subrule (host_transition self))))))))
            | Edge s t l \<Rightarrow>
                (case pattern_edge_to_host self (s, t, l) of
                   Inl e \<Rightarrow> Inl e
                 | Inr he \<Rightarrow> Inr (map_option (\<lambda>(hs, ht, hl). Edge hs ht hl) he))) of
        Inl e \<Rightarrow> Inl e
      | Inr host_element \<Rightarrow>
          (case (if is_relabeled pattern_element
                 then (case host_element of
                         None \<Rightarrow> Inl AttributeError
                       | Some h \<Rightarrow>
                           (let (left_pattern_label, right_pattern_label) = split_element_label pattern_element;
                                (left_host_label, right_host_label) = split_element_label h
                            in if truthy left_pattern_label \<and> left_pattern_label = Some ''*''
                               then map_sum id Some (relabel_element_left ev (e_pattern self) pattern_element left_host_label)
                               else if truthy right_pattern_label \<and> right_pattern_label = Some ''*''
                               then map_sum id Some (relabel_element_right ev (e_pattern self) pattern_element right_host_label)
                               else Inr None))
                 else (case host_element of
                         None \<Rightarrow> Inl AttributeError
                       | Some h \<Rightarrow> map_sum id Some (relabel_element ev (e_pattern self) pattern_element (element_label h)))) of
             Inl e \<Rightarrow> Inl e
           | Inr None \<Rightarrow> Inl TypeError
           | Inr (Some (relabel_pattern, relabel_morphism)) \<Rightarrow>
               (case Morphism_add relabel_morphism (morphism self) of
                  Inl e \<Rightarrow> Inl e
                | Inr m \<Rightarrow> Inr (relabel_pattern, m))))"

definition label_specifications :: "env \<Rightarrow> Embedding \<Rightarrow> (py_error + (RuleGraph \<times> Morphism)) list" where
  "label_specifications ev self =
     map (map_sum leave_generator id)
       (until_error (map (label_specification ev self) (abstract_elements (e_pattern self))))"

text \<open>
  \<open>_build_embeddings\<close>. The dictionary \<open>patterns\<close> is keyed by rule graphs, which hash and
  compare by their canonical strings; its values are sets of morphisms, which hash and
  compare by their fingerprints. Sets and dictionaries are kept in insertion order.
\<close>

definition add_morphism :: "Morphism list \<Rightarrow> Morphism \<Rightarrow> Morphism list" where
  "add_morphism ms m = set_add Morphism_eq ms m"

fun update_morphisms :: "Morphism list \<Rightarrow> (py_error + Morphism) list \<Rightarrow> Morphism \<Rightarrow> py_error + Morphism list" where
  "update_morphisms ms [] pattern_morphism = Inr ms"
| "update_morphisms ms (Inl e # rest) pattern_morphism = Inl e"
| "update_morphisms ms (Inr isomorphism # rest) pattern_morphism =
     (case Morphism_add isomorphism pattern_morphism of
        Inl e \<Rightarrow> Inl e
      | Inr m \<Rightarrow> update_morphisms (add_morphism ms m) rest pattern_morphism)"

fun build_patterns :: "env \<Rightarrow> (RuleGraph \<times> Morphism list) list \<Rightarrow> (py_error + (RuleGraph \<times> Morphism)) list
    \<Rightarrow> py_error + (RuleGraph \<times> Morphism list) list" where
  "build_patterns ev patterns [] = Inr patterns"
| "build_patterns ev patterns (Inl e # rest) = Inl e"
| "build_patterns ev patterns (Inr (pattern, pattern_morphism) # rest) =
     (case find (\<lambda>(other_pattern, ms). RuleGraph_eq other_pattern pattern) patterns of
        Some (original_pattern, ms) \<Rightarrow>
          (case update_morphisms ms (isomorphisms ev pattern original_pattern) pattern_morphism of
             Inl e \<Rightarrow> Inl e
           | Inr ms' \<Rightarrow>
               build_patterns ev
                 (map (\<lambda>(p, old). if RuleGraph_eq p pattern then (p, ms') else (p, old)) patterns) rest)
      | None \<Rightarrow> build_patterns ev (patterns @ [(pattern, [pattern_morphism])]) rest)"

definition build_embeddings :: "env \<Rightarrow> Embedding \<Rightarrow> (py_error + (RuleGraph \<times> Morphism)) list
    \<Rightarrow> py_error + Embedding list" where
  "build_embeddings ev self extension_generator =
     (case build_patterns ev [] extension_generator of
        Inl e \<Rightarrow> Inl (leave_generator e)
      | Inr patterns \<Rightarrow>
          Inr (concat (map (\<lambda>(pattern, morphisms).
                              map (\<lambda>m. mk_Embedding pattern (host_transition self) m) morphisms) patterns)))"

definition number_of_edges :: "CanonicalGraph \<Rightarrow> nat" where
  "number_of_edges g = length (g_edges (graph g))"

definition extensions :: "env \<Rightarrow> Embedding \<Rightarrow> py_error + Embedding list" where
  "extensions ev self =
     map_sum leave_generator id
       (build_embeddings ev self
          (label_specifications ev self
           @ (if number_of_edges (rg_graph (e_pattern self))
                   < number_of_edges (rg_graph (maximal_subrule (host_transition self)))
              then edge_additions ev self else [])))"

section \<open>Lattice nodes (rule\_lattice.py)\<close>

text \<open>A \<open>set\<close> built from a sequence: the first of every class of equal elements, in
  insertion order.\<close>

definition py_set :: "('a \<Rightarrow> 'a \<Rightarrow> bool) \<Rightarrow> 'a list \<Rightarrow> 'a list" where
  "py_set eq xs = foldl (set_add eq) [] xs"

text \<open>
  A \<open>LatticeNode\<close>: its embeddings, its pattern (defined when all embeddings have equal
  patterns), and the two caches \<open>_coverage\<close> and \<open>_successors\<close>.
\<close>

datatype LatticeNode =
  LatticeNode (embeddings: "Embedding list") (n_pattern: "RuleGraph option")
    (coverage_cache: "Transition list option") (successors_cache: "LatticeNode list option")

definition mk_LatticeNode :: "Embedding list \<Rightarrow> LatticeNode" where
  "mk_LatticeNode embs =
     (let patterns = py_set RuleGraph_eq (map e_pattern embs)
      in LatticeNode embs (if length patterns = 1 then Some (hd patterns) else None) None None)"

text \<open>\<open>__eq__\<close> compares the patterns. Comparing a rule graph with \<open>None\<close> reads the
  attribute \<open>_graph\<close> of \<open>None\<close> and raises.\<close>

definition LatticeNode_eq :: "LatticeNode \<Rightarrow> LatticeNode \<Rightarrow> py_error + bool" where
  "LatticeNode_eq self other =
     (case (n_pattern self, n_pattern other) of
        (None, None) \<Rightarrow> Inr True
      | (Some p, Some q) \<Rightarrow> Inr (RuleGraph_eq p q)
      | _ \<Rightarrow> Inl AttributeError)"

definition LatticeNode_hash :: "env \<Rightarrow> LatticeNode \<Rightarrow> int" where
  "LatticeNode_hash ev self =
     37 * (case n_pattern self of None \<Rightarrow> hash_None ev | Some p \<Rightarrow> RuleGraph_hash ev p)"

definition host_transitions :: "LatticeNode \<Rightarrow> Transition list" where
  "host_transitions self = py_set Transition_eq (map host_transition (embeddings self))"

text \<open>\<open>sorted\<close> on transitions orders them by the canonical strings of their maximal
  subrules.\<close>

definition sorted_transitions :: "Transition list \<Rightarrow> Transition list" where
  "sorted_transitions ts = sort_key (\<lambda>t. canonical_smiles (rg_graph (maximal_subrule t))) ts"

text \<open>The property \<open>coverage\<close>: the value, and the node with its cache filled. An empty
  cached tuple is computed again.\<close>

definition coverage :: "LatticeNode \<Rightarrow> Transition list \<times> LatticeNode" where
  "coverage self =
     (case coverage_cache self of
        Some (t # ts) \<Rightarrow> (t # ts, self)
      | _ \<Rightarrow> (let c = sorted_transitions (host_transitions self)
              in (c, LatticeNode (embeddings self) (n_pattern self) (Some c) (successors_cache self))))"

text \<open>Equality of two coverage tuples: the same length and equal transitions.\<close>

definition coverage_eq :: "Transition list \<Rightarrow> Transition list \<Rightarrow> bool" where
  "coverage_eq c d = list_all2 Transition_eq c d"

definition add_embedding :: "Embedding list \<Rightarrow> Embedding \<Rightarrow> Embedding list" where
  "add_embedding es e = set_add Embedding_eq es e"

text \<open>The grouping loop of \<open>successors\<close>: a dictionary from patterns to sets of
  embeddings.\<close>

definition group_extension :: "(RuleGraph \<times> Embedding list) list \<Rightarrow> Embedding \<Rightarrow> (RuleGraph \<times> Embedding list) list" where
  "group_extension exts extension =
     (if \<exists>(p, es) \<in> set exts. RuleGraph_eq p (e_pattern extension)
      then map (\<lambda>(p, es). if RuleGraph_eq p (e_pattern extension) then (p, add_embedding es extension) else (p, es)) exts
      else exts @ [(e_pattern extension, [extension])])"

definition successors_truthy :: "LatticeNode \<Rightarrow> bool" where
  "successors_truthy self = (case successors_cache self of Some (c # cs) \<Rightarrow> True | _ \<Rightarrow> False)"

definition successors :: "env \<Rightarrow> LatticeNode \<Rightarrow> py_error + LatticeNode list" where
  "successors ev self =
     (if n_pattern self = None then Inr []
      else if successors_truthy self then Inr (the (successors_cache self))
      else (case collect (map (extensions ev) (embeddings self)) of
              Inl e \<Rightarrow> Inl (leave_generator e)
            | Inr embedding_extensions \<Rightarrow>
                Inr (map (\<lambda>(extension, embs). mk_LatticeNode embs)
                       (foldl group_extension [] (concat embedding_extensions)))))"

text \<open>
  The loop of \<open>get_maximum_common_subrule\<close> over the children: it stops at the first child
  whose coverage equals the node's (\<open>Inl\<close>), or collects all children (\<open>Inr\<close>). Reading a
  coverage fills the cache of the node read.
\<close>

fun scan_children :: "LatticeNode \<Rightarrow> LatticeNode list \<Rightarrow> LatticeNode list
    \<Rightarrow> LatticeNode \<times> (LatticeNode + LatticeNode list)" where
  "scan_children self [] acc = (self, Inr acc)"
| "scan_children self (child # rest) acc =
     (let (child_coverage, child') = coverage child;
          (self_coverage, self') = coverage self
      in if coverage_eq child_coverage self_coverage then (self', Inl child')
         else scan_children self' rest (acc @ [child']))"

definition set_successors :: "LatticeNode \<Rightarrow> LatticeNode list \<Rightarrow> LatticeNode" where
  "set_successors self succs = LatticeNode (embeddings self) (n_pattern self) (coverage_cache self) (Some succs)"

text \<open>\<open>get_maximum_common_subrule\<close>. The recursion need not end; \<open>None\<close> is the run that
  does not return.\<close>

partial_function (option) get_maximum_common_subrule :: "env \<Rightarrow> LatticeNode \<Rightarrow> (py_error + LatticeNode) option" where
  "get_maximum_common_subrule ev self =
     (if successors_truthy self then Some (Inr self)
      else (case successors ev self of
              Inl e \<Rightarrow> Some (Inl e)
            | Inr children \<Rightarrow>
                (case scan_children self children [] of
                   (self', Inl child) \<Rightarrow> get_maximum_common_subrule ev child
                 | (self', Inr succs) \<Rightarrow> Some (Inr (set_successors self' succs)))))"

text \<open>
  The descent of \<open>get_maximum_common_subrule\<close> from a node ends: the node has its
  successors cached, or computing the successors raises, or no child has the node's
  coverage, or the descent from the first child that has it ends.
\<close>

inductive descent_ends :: "env \<Rightarrow> LatticeNode \<Rightarrow> bool" for ev where
  cached: "successors_truthy N \<Longrightarrow> descent_ends ev N"
| raises: "\<not> successors_truthy N \<Longrightarrow> successors ev N = Inl e \<Longrightarrow> descent_ends ev N"
| stops: "\<not> successors_truthy N \<Longrightarrow> successors ev N = Inr children \<Longrightarrow>
            scan_children N children [] = (N', Inr succs) \<Longrightarrow> descent_ends ev N"
| descends: "\<not> successors_truthy N \<Longrightarrow> successors ev N = Inr children \<Longrightarrow>
            scan_children N children [] = (N', Inl child) \<Longrightarrow> descent_ends ev child \<Longrightarrow> descent_ends ev N"

section \<open>Candidate rules and the rule lattice (rule\_lattice.py)\<close>

record CandidateRule =
  c_coverage :: "Transition list"
  distortion :: "Transition list"
  rule :: "RuleGraph option"

text \<open>The generator \<open>(transition for transition in ts if transition.can_embed(pattern))\<close>, read
  to the end by \<open>list\<close>.\<close>

fun filter_can_embed :: "env \<Rightarrow> RuleGraph option \<Rightarrow> Transition list \<Rightarrow> py_error + Transition list" where
  "filter_can_embed ev pattern [] = Inr []"
| "filter_can_embed ev pattern (t # ts) =
     (case can_embed ev t pattern of
        Inl e \<Rightarrow> Inl e
      | Inr b \<Rightarrow> (case filter_can_embed ev pattern ts of
                    Inl e \<Rightarrow> Inl e
                  | Inr rest \<Rightarrow> Inr (if b then t # rest else rest)))"

definition mk_CandidateRule :: "LatticeNode \<Rightarrow> Transition list \<Rightarrow> CandidateRule" where
  "mk_CandidateRule node dist = \<lparr>c_coverage = host_transitions node, distortion = dist, rule = n_pattern node\<rparr>"

definition amount_of_distortion :: "CandidateRule \<Rightarrow> nat" where
  "amount_of_distortion c = length (distortion c)"

text \<open>
  Nodes are keys of dictionaries and members of sets. They hash and compare by their
  patterns, and patterns by their canonical strings, so the key of a node is the canonical
  string of its pattern, or nothing when the pattern is undefined. (A defined and an
  undefined pattern are compared only if their hashes collide.)
\<close>

definition node_key :: "LatticeNode \<Rightarrow> string option" where
  "node_key n = map_option (\<lambda>p. canonical_smiles (rg_graph p)) (n_pattern n)"

definition node_in :: "LatticeNode list \<Rightarrow> LatticeNode \<Rightarrow> bool" where
  "node_in s n = (node_key n \<in> node_key ` set s)"

definition node_lookup :: "(LatticeNode \<times> 'v) list \<Rightarrow> LatticeNode \<Rightarrow> 'v option" where
  "node_lookup d n = map_of (map (\<lambda>(k, v). (node_key k, v)) d) (node_key n)"

fun node_update :: "(LatticeNode \<times> 'v) list \<Rightarrow> LatticeNode \<Rightarrow> 'v \<Rightarrow> (LatticeNode \<times> 'v) list" where
  "node_update [] n v = [(n, v)]"
| "node_update ((k, w) # d) n v =
     (if node_key k = node_key n then (k, v) # d else (k, w) # node_update d n v)"

definition node_set_add :: "LatticeNode list \<Rightarrow> LatticeNode \<Rightarrow> LatticeNode list" where
  "node_set_add s n = (if node_in s n then s else s @ [n])"

record RuleLattice =
  roots :: "LatticeNode list"
  nodes :: "(LatticeNode \<times> LatticeNode list) list"
  candidates :: "(LatticeNode \<times> CandidateRule) list"
  node_queue :: "LatticeNode list"
  seen_nodes :: "LatticeNode list"


definition active_node :: "RuleLattice \<Rightarrow> LatticeNode option" where
  "active_node L = (if length (node_queue L) = 0 then None else Some (hd (node_queue L)))"

text \<open>
  \<open>_add_node\<close>. The result is the lattice after the call and the value returned; \<open>None\<close> at
  the outside is a call that does not return because \<open>get_maximum_common_subrule\<close> does
  not.
\<close>

definition add_node :: "env \<Rightarrow> RuleLattice \<Rightarrow> LatticeNode \<Rightarrow> LatticeNode
    \<Rightarrow> (py_error + RuleLattice \<times> LatticeNode option) option" where
  "add_node ev L node parent =
     (if node_in (seen_nodes L) node then Some (Inr (L, None))
      else
        (let L1 = L\<lparr>seen_nodes := seen_nodes L @ [node]\<rparr>
         in case get_maximum_common_subrule ev node of
              None \<Rightarrow> None
            | Some (Inl e) \<Rightarrow> Some (Inl e)
            | Some (Inr maximal_common_subrule) \<Rightarrow>
                (if node_in (map fst (candidates L1)) maximal_common_subrule
                 then (case node_lookup (nodes L1) parent of
                         None \<Rightarrow> Some (Inl KeyError)
                       | Some children \<Rightarrow>
                           Some (Inr (if \<not> node_in children maximal_common_subrule
                                      then L1\<lparr>nodes := node_update (nodes L1) parent
                                                          (node_set_add children maximal_common_subrule)\<rparr>
                                      else L1, None)))
                 else (case node_lookup (nodes L1) parent of
                         None \<Rightarrow> Some (Inl KeyError)
                       | Some children \<Rightarrow>
                           (let L2 = L1\<lparr>nodes := node_update
                                                    (node_update (nodes L1) parent
                                                       (node_set_add children maximal_common_subrule))
                                                    maximal_common_subrule []\<rparr>
                            in case node_lookup (candidates L2) parent of
                                 None \<Rightarrow> Some (Inl KeyError)
                               | Some parent_candidate \<Rightarrow>
                                   (case filter_can_embed ev (n_pattern maximal_common_subrule)
                                           (distortion parent_candidate) of
                                      Inl e \<Rightarrow> Some (Inl e)
                                    | Inr dist \<Rightarrow>
                                        (let c = mk_CandidateRule maximal_common_subrule dist;
                                             L3 = L2\<lparr>candidates := node_update (candidates L2)
                                                                      maximal_common_subrule c\<rparr>;
                                             L4 = (if amount_of_distortion c > 0
                                                   then L3\<lparr>node_queue := node_queue L3 @ [maximal_common_subrule]\<rparr>
                                                   else L3)
                                         in Some (Inr (L4, Some maximal_common_subrule)))))))))"

text \<open>The loop of \<open>resolve_node\<close> over the children of the active node.\<close>

fun add_nodes :: "env \<Rightarrow> RuleLattice \<Rightarrow> LatticeNode list \<Rightarrow> LatticeNode \<Rightarrow> (py_error + RuleLattice) option" where
  "add_nodes ev L [] parent = Some (Inr L)"
| "add_nodes ev L (child # rest) parent =
     (case add_node ev L child parent of
        None \<Rightarrow> None
      | Some (Inl e) \<Rightarrow> Some (Inl e)
      | Some (Inr (L', r)) \<Rightarrow> add_nodes ev L' rest parent)"

definition resolve_node :: "env \<Rightarrow> RuleLattice \<Rightarrow> (py_error + RuleLattice) option" where
  "resolve_node ev L =
     (let active = active_node L;
          L1 = L\<lparr>node_queue := tl (node_queue L)\<rparr>
      in case active of
           None \<Rightarrow> Some (Inr L1)
         | Some a \<Rightarrow>
             (case successors ev a of
                Inl e \<Rightarrow> Some (Inl e)
              | Inr children \<Rightarrow> add_nodes ev L1 children a))"

text \<open>The coverage cache of a node is either empty or holds the coverage of the node's
  embeddings.\<close>

definition coverage_cache_ok :: "LatticeNode \<Rightarrow> bool" where
  "coverage_cache_ok n =
     (case coverage_cache n of
        None \<Rightarrow> True
      | Some c \<Rightarrow> c = sorted_transitions (host_transitions n))"

section \<open>A reference instance of the libraries\<close>

text \<open>
  For concrete runs the library functions are instantiated by direct (exhaustive)
  implementations of what the libraries document: the parsed graph keeps the ids and
  labels of the text; the canonical string is an invariant of the labelled graph (the
  sorted vertex labels and the sorted edges with their endpoint labels); components are
  found by closure under adjacency; and the matcher enumerates the injective node maps
  that respect the node and edge tests.
\<close>

definition ex_edge_code :: "nx_graph \<Rightarrow> (vertex \<times> vertex) \<times> string \<Rightarrow> string" where
  "ex_edge_code G e =
     (let ((u, v), l) = e;
          lu = the (map_of (nx_nodes G) u); lv = the (map_of (nx_nodes G) v)
      in ''('' @ min lu lv @ '','' @ max lu lv @ '','' @ l @ '')'')"

definition ex_smiles :: "nx_graph \<Rightarrow> string" where
  "ex_smiles G = concat (map (\<lambda>l. ''['' @ l @ '']'') (sort (map snd (nx_nodes G))))
                   @ concat (sort (map (ex_edge_code G) (nx_edges G)))"

definition ex_canonicalise_gml :: "nx_graph \<Rightarrow> CanonicalGraph" where
  "ex_canonicalise_gml G =
     \<lparr>graph = \<lparr>g_vertices = nx_nodes G, g_edges = map (\<lambda>((u, v), l). (u, v, l)) (nx_edges G)\<rparr>,
      canonical_smiles = ex_smiles G,
      automorphism_generators = []\<rparr>"

fun ex_reach :: "nx_graph \<Rightarrow> nat \<Rightarrow> vertex list \<Rightarrow> vertex list" where
  "ex_reach G 0 seen = seen"
| "ex_reach G (Suc n) seen =
     ex_reach G n
       (filter (\<lambda>w. w \<in> set seen \<or> (\<exists>v \<in> set seen. nx_has_edge G v w)) (map fst (nx_nodes G)))"

definition ex_connected_components :: "nx_graph \<Rightarrow> vertex list list" where
  "ex_connected_components G =
     foldl (\<lambda>comps v. if \<exists>c \<in> set comps. v \<in> set c then comps
                       else comps @ [ex_reach G (length (nx_nodes G)) [v]])
       [] (map fst (nx_nodes G))"

definition ex_side_label :: "RuleSideGraph \<Rightarrow> RuleSideGraph \<Rightarrow> elem_key \<Rightarrow> string option" where
  "ex_side_label side ctx k = (case map_of side k of Some l \<Rightarrow> Some l | None \<Rightarrow> map_of ctx k)"

definition ex_ruleGMLString :: "RuleBuilder \<Rightarrow> mod_rule" where
  "ex_ruleGMLString b =
     (let keys = remdups (map fst (rb_left b @ rb_context b @ rb_right b))
      in \<lparr>r_name = rb_id b,
          r_vertices = concat (map (\<lambda>k. case k of
                                 VKey v \<Rightarrow> [(v, ex_side_label (rb_left b) (rb_context b) k,
                                              ex_side_label (rb_right b) (rb_context b) k)]
                               | EKey s t \<Rightarrow> []) keys),
          r_edges = concat (map (\<lambda>k. case k of
                                 VKey v \<Rightarrow> []
                               | EKey s t \<Rightarrow> [(s, t, ex_side_label (rb_left b) (rb_context b) k,
                                               ex_side_label (rb_right b) (rb_context b) k)]) keys)\<rparr>)"

text \<open>All injective assignments of distinct nodes of the first graph to the nodes of the
  second, as dictionaries from nodes of the first graph to nodes of the second.\<close>

fun ex_injections :: "vertex list \<Rightarrow> vertex list \<Rightarrow> (vertex \<times> vertex) list list" where
  "ex_injections [] avail = [[]]"
| "ex_injections (y # ys) avail =
     concat (map (\<lambda>x. map (\<lambda>m. (x, y) # m) (ex_injections ys (remove1 x avail))) avail)"

definition ex_edge_label :: "nx_graph \<Rightarrow> vertex \<Rightarrow> vertex \<Rightarrow> string option" where
  "ex_edge_label G u v = map_option snd (find (\<lambda>(f, l). same_edge f (u, v)) (nx_edges G))"

text \<open>A match sends every edge of the second graph to an edge of the first whose label
  passes the edge test, and every node to a node whose label passes the node test.\<close>

definition ex_match_ok :: "nx_graph \<Rightarrow> nx_graph \<Rightarrow> (string \<Rightarrow> string \<Rightarrow> bool) \<Rightarrow> (string \<Rightarrow> string \<Rightarrow> bool)
    \<Rightarrow> (vertex \<times> vertex) list \<Rightarrow> bool" where
  "ex_match_ok G1 G2 node_match edge_match m =
     (let back = (\<lambda>y. fst (the (find (\<lambda>(x, y'). y' = y) m)))
      in (\<forall>(x, y) \<in> set m. node_match (the (map_of (nx_nodes G1) x)) (the (map_of (nx_nodes G2) y)))
         \<and> (\<forall>((u, v), l) \<in> set (nx_edges G2).
               case ex_edge_label G1 (back u) (back v) of
                 None \<Rightarrow> False
               | Some l1 \<Rightarrow> edge_match l1 l))"

definition ex_subgraph_monomorphisms_iter :: "nx_graph \<Rightarrow> nx_graph \<Rightarrow> (string \<Rightarrow> string \<Rightarrow> bool)
    \<Rightarrow> (string \<Rightarrow> string \<Rightarrow> bool) \<Rightarrow> (vertex \<times> vertex) list list" where
  "ex_subgraph_monomorphisms_iter G1 G2 node_match edge_match =
     filter (ex_match_ok G1 G2 node_match edge_match)
       (ex_injections (map fst (nx_nodes G2)) (map fst (nx_nodes G1)))"

definition ex_isomorphisms_iter :: "nx_graph \<Rightarrow> nx_graph \<Rightarrow> (string \<Rightarrow> string \<Rightarrow> bool)
    \<Rightarrow> (string \<Rightarrow> string \<Rightarrow> bool) \<Rightarrow> (vertex \<times> vertex) list list" where
  "ex_isomorphisms_iter G1 G2 node_match edge_match =
     (if length (nx_nodes G1) = length (nx_nodes G2) \<and> length (nx_edges G1) = length (nx_edges G2)
      then ex_subgraph_monomorphisms_iter G1 G2 node_match edge_match else [])"

definition ex_env :: env where
  "ex_env = \<lparr>canonicalise_gml = ex_canonicalise_gml,
             connected_components = ex_connected_components,
             ruleGMLString = ex_ruleGMLString,
             isomorphisms_iter = ex_isomorphisms_iter,
             subgraph_monomorphisms_iter = ex_subgraph_monomorphisms_iter,
             hash_str = (\<lambda>s. int (length s)),
             hash_None = 0,
             hash_int = (\<lambda>i. i)\<rparr>"

definition ex_rule_graph :: "string \<Rightarrow> (vertex \<times> string) list \<Rightarrow> (vertex \<times> vertex \<times> string) list \<Rightarrow> RuleGraph" where
  "ex_rule_graph name vs es =
     mk_RuleGraph (ex_canonicalise_gml \<lparr>nx_nodes = vs, nx_edges = map (\<lambda>(u, v, l). ((u, v), l)) es\<rparr>) name"

definition ex_host0 :: Transition where
  "ex_host0 = \<lparr>maximal_subrule = ex_rule_graph ''t0'' [(0, ''a;b'')] []\<rparr>"

definition ex_min0 :: Embedding where
  "ex_min0 = mk_Embedding (ex_rule_graph ''min_t0'' [(0, ''*;b'')] []) ex_host0 (mk_Morphism [(0, 0)])"

definition ex_spec0 :: Embedding where
  "ex_spec0 = mk_Embedding (ex_rule_graph ''min_t0_L0'' [(0, ''a;b'')] []) ex_host0 (mk_Morphism [(0, 0)])"

definition ex_mcs0 :: LatticeNode where
  "ex_mcs0 = LatticeNode [ex_spec0] (Some (e_pattern ex_spec0)) (Some [ex_host0]) (Some [])"

definition ex_host_a :: Transition where
  "ex_host_a = \<lparr>maximal_subrule = ex_rule_graph ''ta'' [(0, ''a;b'')] []\<rparr>"

definition ex_host_c :: Transition where
  "ex_host_c = \<lparr>maximal_subrule = ex_rule_graph ''tc'' [(0, ''c;b'')] []\<rparr>"

definition ex_min_a :: Embedding where
  "ex_min_a = mk_Embedding (ex_rule_graph ''min_ta'' [(0, ''*;b'')] []) ex_host_a (mk_Morphism [(0, 0)])"

definition ex_min_c :: Embedding where
  "ex_min_c = mk_Embedding (ex_rule_graph ''min_tc'' [(0, ''*;b'')] []) ex_host_c (mk_Morphism [(0, 0)])"

definition ex_spec_a :: Embedding where
  "ex_spec_a = mk_Embedding (ex_rule_graph ''min_ta_L0'' [(0, ''a;b'')] []) ex_host_a (mk_Morphism [(0, 0)])"

definition ex_spec_c :: Embedding where
  "ex_spec_c = mk_Embedding (ex_rule_graph ''min_tc_L0'' [(0, ''c;b'')] []) ex_host_c (mk_Morphism [(0, 0)])"

definition ex_root :: LatticeNode where
  "ex_root = LatticeNode [ex_min_a, ex_min_c] (Some (e_pattern ex_min_a)) (Some [ex_host_a, ex_host_c])
               (Some [LatticeNode [ex_spec_a] (Some (e_pattern ex_spec_a)) (Some [ex_host_a]) None,
                      LatticeNode [ex_spec_c] (Some (e_pattern ex_spec_c)) (Some [ex_host_c]) None])"

definition ex_host_d :: Transition where
  "ex_host_d = \<lparr>maximal_subrule = ex_rule_graph ''td'' [(0, ''d;b'')] []\<rparr>"

definition ex_host_e :: Transition where
  "ex_host_e = \<lparr>maximal_subrule = ex_rule_graph ''te'' [(0, ''a;b''), (1, ''x'')] [(0, 1, ''-'')]\<rparr>"




text \<open>The canonical strings of the keys of the dictionary \<open>patterns\<close>.\<close>

definition pattern_keys :: "(RuleGraph \<times> Morphism list) list \<Rightarrow> string list" where
  "pattern_keys patterns = map (\<lambda>(p, ms). canonical_smiles (rg_graph p)) patterns"

text \<open>A host with a relabeled edge and three more edges, and an embedding of a pattern
  with two edges into it.\<close>

definition ex_chain_host :: Transition where
  "ex_chain_host = \<lparr>maximal_subrule = ex_rule_graph ''t''
      [(0, ''C''), (1, ''C''), (2, ''C''), (3, ''C''), (4, ''C'')]
      [(0, 1, ''-;=''), (0, 2, ''-''), (1, 3, ''-''), (1, 4, ''-'')]\<rparr>"

definition ex_chain_embedding :: Embedding where
  "ex_chain_embedding = mk_Embedding
      (ex_rule_graph ''p'' [(0, ''*''), (1, ''*''), (2, ''*'')] [(0, 1, ''*;=''), (0, 2, ''*'')])
      ex_chain_host (mk_Morphism [(0, 0), (1, 1), (2, 2)])"

definition ex_chain4 :: RuleGraph where
  "ex_chain4 = ex_rule_graph ''p_A1-3'' [(0, ''*''), (1, ''*''), (2, ''*''), (3, ''*'')]
      [(0, 1, ''*;=''), (0, 2, ''*''), (1, 3, ''*'')]"

definition ex_chain_specifications :: "(RuleGraph \<times> Morphism) list" where
  "ex_chain_specifications =
     [(ex_rule_graph ''p_L0'' [(0, ''C''), (1, ''*''), (2, ''*'')] [(0, 1, ''*;=''), (0, 2, ''*'')],
       mk_Morphism [(0, 0), (1, 1), (2, 2)]),
      (ex_rule_graph ''p_L1'' [(0, ''*''), (1, ''C''), (2, ''*'')] [(0, 1, ''*;=''), (0, 2, ''*'')],
       mk_Morphism [(0, 0), (1, 1), (2, 2)]),
      (ex_rule_graph ''p_L2'' [(0, ''*''), (1, ''*''), (2, ''C'')] [(0, 1, ''*;=''), (0, 2, ''*'')],
       mk_Morphism [(0, 0), (1, 1), (2, 2)]),
      (ex_rule_graph ''p_L0-1'' [(0, ''*''), (1, ''*''), (2, ''*'')] [(0, 1, ''-;=''), (0, 2, ''*'')],
       mk_Morphism [(0, 0), (1, 1), (2, 2)]),
      (ex_rule_graph ''p_L0-2'' [(0, ''*''), (1, ''*''), (2, ''*'')] [(0, 1, ''*;=''), (0, 2, ''-'')],
       mk_Morphism [(0, 0), (1, 1), (2, 2)])]"





section \<open>Label compatibility with an empty right half\<close>

lemma str_split_no_sep: "c \<notin> set ys \<Longrightarrow> str_split c ys = [ys]"
  by (induction ys) auto

lemma str_split_append: "c \<notin> set xs \<Longrightarrow> str_split c (xs @ c # ys) = xs # str_split c ys"
  by (induction xs) auto

lemma split_label_halves:
  assumes "CHR '';'' \<notin> set X" "CHR '';'' \<notin> set Y"
  shows "split_label (X @ '';'' @ Y)
       = (if X = [] then None else Some X, if Y = [] then None else Some Y)"
  using assms by (simp add: split_label_def str_split_append str_split_no_sep)

lemma compare_labels_plain:
  assumes "CHR '';'' \<notin> set X"
  shows "compare_labels (if X = [] then None else Some X) (if X = [] then None else Some X)"
  using assms by (subst compare_labels.simps) (auto simp: truthy_def is_combined_def)

lemma compare_labels_None: "compare_labels None sub = (\<not> truthy sub)"
  by (subst compare_labels.simps) (auto simp: truthy_def)

text \<open>
  C7 (as the code has it). For halves \<open>X\<close> and \<open>Y\<close> free of the separator, comparing the
  supergraph label \<open>X;\<close> with the subgraph label \<open>X;Y\<close> succeeds on the left half, and
  succeeds on the right half exactly when \<open>Y\<close> is empty. The wildcard is no exception:
  the test for an absent supergraph half comes before the wildcard test, so \<open>X;\<close> is
  compatible with \<open>X;\<close> only, and neither with \<open>X;*\<close> nor with \<open>X;Y\<close>.
\<close>

theorem compare_labels_empty_right_half:
  assumes "CHR '';'' \<notin> set X" and "CHR '';'' \<notin> set Y"
  shows "compare_labels (fst (split_label (X @ '';''))) (fst (split_label (X @ '';'' @ Y)))
       \<and> compare_labels (snd (split_label (X @ '';''))) (snd (split_label (X @ '';'' @ Y))) = (Y = [])
       \<and> compare_labels (Some (X @ '';'')) (Some (X @ '';'' @ Y)) = (Y = [])"
proof -
  have s1: "split_label (X @ '';'') = (if X = [] then None else Some X, None)"
    using split_label_halves[OF assms(1), of "[]"] by simp
  have s2: "split_label (X @ '';'' @ Y)
          = (if X = [] then None else Some X, if Y = [] then None else Some Y)"
    using split_label_halves[OF assms] .
  have l: "compare_labels (fst (split_label (X @ '';''))) (fst (split_label (X @ '';'' @ Y)))"
    unfolding s1 s2 using compare_labels_plain[OF assms(1)] by simp
  have r: "compare_labels (snd (split_label (X @ '';''))) (snd (split_label (X @ '';'' @ Y))) = (Y = [])"
    unfolding s1 s2 by (simp add: compare_labels_None truthy_def)
  have w: "compare_labels (Some (X @ '';'')) (Some (X @ '';'' @ Y)) = (Y = [])"
    by (subst compare_labels.simps) (use l r in \<open>simp add: truthy_def is_combined_def\<close>)
  from l r w show ?thesis by blast
qed

theorem compare_labels_empty_right_half_witness:
  "compare_labels (Some ''X;'') (Some ''X;'') = True
   \<and> compare_labels (Some ''X;'') (Some ''X;Y'') = False
   \<and> compare_labels (Some ''X;'') (Some ''X;*'') = False"
  using compare_labels_empty_right_half[of "''X''" "[]"]
        compare_labels_empty_right_half[of "''X''" "''Y''"]
        compare_labels_empty_right_half[of "''X''" "''*''"]
  by simp

text \<open>
  The claim as written says that \<open>X;\<close> is compatible with \<open>X;*\<close>. It is not.
\<close>

theorem compare_labels_wildcard_right_half_counterexample:
  "\<not> compare_labels (Some ''X;'') (Some ''X;*'')"
  by (simp add: compare_labels.simps truthy_def is_combined_def split_label_def)

section \<open>Canonical representatives of morphisms\<close>

lemma update_fresh: "k \<notin> fst ` set d \<Longrightarrow> AList.update k v d = d @ [(k, v)]"
  by (induction d) auto

lemma foldl_update_distinct:
  "distinct (map fst xs) \<Longrightarrow> fst ` set xs \<inter> fst ` set d = {} \<Longrightarrow>
   foldl (\<lambda>d (k, v). AList.update k v d) d xs = d @ xs"
proof (induction xs arbitrary: d)
  case Nil
  then show ?case by simp
next
  case (Cons x xs)
  obtain k v where x: "x = (k, v)" by (cases x)
  have fresh: "k \<notin> fst ` set d" using Cons.prems(2) x by auto
  have d1: "distinct (map fst xs)" using Cons.prems(1) by simp
  have d2: "fst ` set xs \<inter> fst ` set (d @ [(k, v)]) = {}"
    using Cons.prems x by auto
  show ?case using Cons.IH[OF d1 d2] x update_fresh[OF fresh] by simp
qed

lemma dict_of_distinct: "distinct (map fst xs) \<Longrightarrow> dict_of xs = xs"
  using foldl_update_distinct[of xs "[]"] by (simp add: dict_of_def)

lemma collect_map_Inr: "collect (map Inr vs) = Inr vs"
  by (induction vs) auto

lemma Morphism_add_defined:
  assumes "snd ` set (vertex_map a) \<subseteq> fst ` set (vertex_map b)"
  shows "Morphism_add a b
       = Inr (mk_Morphism (dict_of (map (\<lambda>(r, i). (r, the (map_of (vertex_map b) i))) (vertex_map a))))"
proof -
  have eq: "map (\<lambda>(range_vertex, image_vertex).
               case getitem b image_vertex of Inl e \<Rightarrow> Inl e | Inr v \<Rightarrow> Inr (range_vertex, v)) (vertex_map a)
      = map Inr (map (\<lambda>(r, i). (r, the (map_of (vertex_map b) i))) (vertex_map a))"
  proof -
    have "\<And>r i. (r, i) \<in> set (vertex_map a) \<Longrightarrow> \<exists>v. map_of (vertex_map b) i = Some v"
    proof -
      fix r i assume "(r, i) \<in> set (vertex_map a)"
      then have "i \<in> fst ` set (vertex_map b)" using assms by force
      then show "\<exists>v. map_of (vertex_map b) i = Some v"
        by (metis domD dom_map_of_conv_image_fst)
    qed
    then show ?thesis by (auto simp: getitem_def split: option.splits)
  qed
  show ?thesis unfolding Morphism_add_def items_def eq collect_map_Inr by simp
qed

lemma vertex_map_mk: "vertex_map (mk_Morphism vm) = vm"
  by (simp add: mk_Morphism_def)

lemma add_generator:
  assumes vm: "distinct (map fst vm)" "set (map fst vm) = set vs" "distinct vs"
      and g: "\<forall>v \<in> set vs. g v \<in> set vs"
  shows "Morphism_add (mk_Morphism (dict_of (map (\<lambda>v. (v, g v)) vs))) (mk_Morphism vm)
       = Inr (mk_Morphism (map (\<lambda>v. (v, the (map_of vm (g v)))) vs))"
proof -
  have d: "dict_of (map (\<lambda>v. (v, g v)) vs) = map (\<lambda>v. (v, g v)) vs"
    using assms(3) by (intro dict_of_distinct) (simp add: comp_def)
  have sub: "snd ` set (vertex_map (mk_Morphism (map (\<lambda>v. (v, g v)) vs))) \<subseteq> fst ` set (vertex_map (mk_Morphism vm))"
    using g vm(2) by (auto simp: mk_Morphism_def)
  have m: "map (\<lambda>(r, i). (r, the (map_of vm i))) (map (\<lambda>v. (v, g v)) vs)
         = map (\<lambda>v. (v, the (map_of vm (g v)))) vs"
    by simp
  have d2: "dict_of (map (\<lambda>v. (v, the (map_of vm (g v)))) vs) = map (\<lambda>v. (v, the (map_of vm (g v)))) vs"
    using assms(3) by (intro dict_of_distinct) (simp add: comp_def)
  show ?thesis unfolding d
    using Morphism_add_defined[OF sub, unfolded vertex_map_mk m d2] .
qed

lemma add_image:
  assumes vs: "distinct vs" and img: "\<forall>v \<in> set vs. f v \<in> set ws" and ws: "distinct ws"
  shows "Morphism_add (mk_Morphism (map (\<lambda>v. (v, f v)) vs)) (mk_Morphism (dict_of (map (\<lambda>w. (w, h w)) ws)))
       = Inr (mk_Morphism (map (\<lambda>v. (v, h (f v))) vs))"
proof -
  have d: "dict_of (map (\<lambda>w. (w, h w)) ws) = map (\<lambda>w. (w, h w)) ws"
    using ws by (intro dict_of_distinct) (simp add: comp_def)
  have sub: "snd ` set (vertex_map (mk_Morphism (map (\<lambda>v. (v, f v)) vs)))
           \<subseteq> fst ` set (vertex_map (mk_Morphism (map (\<lambda>w. (w, h w)) ws)))"
    using img by (auto simp: mk_Morphism_def image_iff)
  have look: "\<And>w. w \<in> set ws \<Longrightarrow> map_of (map (\<lambda>w. (w, h w)) ws) w = Some (h w)"
    by (simp add: map_of_map_restrict)
  have m: "map (\<lambda>(r, i). (r, the (map_of (map (\<lambda>w. (w, h w)) ws) i))) (map (\<lambda>v. (v, f v)) vs)
         = map (\<lambda>v. (v, h (f v))) vs"
    using img look by simp
  have d2: "dict_of (map (\<lambda>v. (v, h (f v))) vs) = map (\<lambda>v. (v, h (f v))) vs"
    using vs by (intro dict_of_distinct) (simp add: comp_def)
  show ?thesis unfolding d
    using Morphism_add_defined[OF sub, unfolded vertex_map_mk m d2] .
qed

lemma Morphism_le_refl: "Morphism_le a a"
  by (simp add: Morphism_le_def)

lemma Morphism_le_trans: "Morphism_le a b \<Longrightarrow> Morphism_le b c \<Longrightarrow> Morphism_le a c"
  by (auto simp: Morphism_le_def)

lemma Morphism_pick_le:
  "Morphism_le (if Morphism_lt c s then c else s) s" "Morphism_le (if Morphism_lt c s then c else s) c"
  by (auto simp: Morphism_le_def Morphism_lt_def)

lemma canonicalise_image_result:
  "canonicalise_image pc ias s = Inr r \<Longrightarrow>
     Morphism_le r s
     \<and> (r = s \<or> (\<exists>ia \<in> set ias. Morphism_add pc ia = Inr r))
     \<and> (\<forall>ia \<in> set ias. \<exists>c. Morphism_add pc ia = Inr c \<and> Morphism_le r c)"
proof (induction ias arbitrary: s)
  case Nil
  then show ?case by (simp add: Morphism_le_refl)
next
  case (Cons ia ias)
  from Cons.prems obtain c where c: "Morphism_add pc ia = Inr c"
    and rest: "canonicalise_image pc ias (if Morphism_lt c s then c else s) = Inr r"
    by (auto split: sum.splits)
  let ?s' = "if Morphism_lt c s then c else s"
  from Cons.IH[OF rest] have ih: "Morphism_le r ?s'"
     "r = ?s' \<or> (\<exists>ia \<in> set ias. Morphism_add pc ia = Inr r)"
     "\<forall>ia \<in> set ias. \<exists>c. Morphism_add pc ia = Inr c \<and> Morphism_le r c"
    by blast+
  have 1: "Morphism_le r s" using ih(1) Morphism_pick_le(1)[of c s] Morphism_le_trans by blast
  have 2: "Morphism_le r c" using ih(1) Morphism_pick_le(2)[of c s] Morphism_le_trans by blast
  have 3: "r = s \<or> (\<exists>ia' \<in> set (ia # ias). Morphism_add pc ia' = Inr r)"
    using ih(2) c by (auto split: if_splits)
  have 4: "\<forall>ia' \<in> set (ia # ias). \<exists>c. Morphism_add pc ia' = Inr c \<and> Morphism_le r c"
    using ih(3) c 2 by auto
  from 1 3 4 show ?case by blast
qed

lemma canonicalise_image_defined:
  "\<forall>ia \<in> set ias. \<exists>c. Morphism_add pc ia = Inr c \<Longrightarrow> \<exists>r. canonicalise_image pc ias s = Inr r"
  by (induction ias arbitrary: s) auto

lemma canonicalise_range_result:
  "canonicalise_range self ras ias s = Inr r \<Longrightarrow>
     Morphism_le r s
     \<and> (r = s \<or> (\<exists>ra \<in> set ras. \<exists>ia \<in> set ias. \<exists>p. Morphism_add ra self = Inr p \<and> Morphism_add p ia = Inr r))
     \<and> (\<forall>ra \<in> set ras. \<forall>ia \<in> set ias. \<exists>p c. Morphism_add ra self = Inr p \<and> Morphism_add p ia = Inr c
            \<and> Morphism_le r c)"
proof (induction ras arbitrary: s)
  case Nil
  then show ?case by (simp add: Morphism_le_refl)
next
  case (Cons ra ras)
  from Cons.prems obtain p s' where p: "Morphism_add ra self = Inr p"
    and inner: "canonicalise_image p ias s = Inr s'"
    and rest: "canonicalise_range self ras ias s' = Inr r"
    by (auto split: sum.splits)
  from canonicalise_image_result[OF inner] have i: "Morphism_le s' s"
     "s' = s \<or> (\<exists>ia \<in> set ias. Morphism_add p ia = Inr s')"
     "\<forall>ia \<in> set ias. \<exists>c. Morphism_add p ia = Inr c \<and> Morphism_le s' c"
    by blast+
  from Cons.IH[OF rest] have ih: "Morphism_le r s'"
     "r = s' \<or> (\<exists>ra \<in> set ras. \<exists>ia \<in> set ias. \<exists>p. Morphism_add ra self = Inr p \<and> Morphism_add p ia = Inr r)"
     "\<forall>ra \<in> set ras. \<forall>ia \<in> set ias. \<exists>p c. Morphism_add ra self = Inr p \<and> Morphism_add p ia = Inr c
            \<and> Morphism_le r c"
    by blast+
  have 1: "Morphism_le r s" using ih(1) i(1) Morphism_le_trans by blast
  have 2: "r = s \<or> (\<exists>ra' \<in> set (ra # ras). \<exists>ia \<in> set ias. \<exists>p. Morphism_add ra' self = Inr p \<and> Morphism_add p ia = Inr r)"
    using ih(2) i(2) p by auto
  have 3: "\<forall>ia \<in> set ias. \<exists>p c. Morphism_add ra self = Inr p \<and> Morphism_add p ia = Inr c \<and> Morphism_le r c"
    using i(3) ih(1) p Morphism_le_trans by blast
  have 4: "\<forall>ra' \<in> set (ra # ras). \<forall>ia \<in> set ias. \<exists>p c. Morphism_add ra' self = Inr p \<and> Morphism_add p ia = Inr c
            \<and> Morphism_le r c"
    using 3 ih(3) by simp
  from 1 2 4 show ?case by blast
qed

lemma canonicalise_range_defined:
  "\<forall>ra \<in> set ras. \<exists>p. Morphism_add ra self = Inr p \<and> (\<forall>ia \<in> set ias. \<exists>c. Morphism_add p ia = Inr c)
   \<Longrightarrow> \<exists>r. canonicalise_range self ras ias s = Inr r"
proof (induction ras arbitrary: s)
  case Nil
  then show ?case by simp
next
  case (Cons ra ras)
  from Cons.prems obtain p where p: "Morphism_add ra self = Inr p"
     "\<forall>ia \<in> set ias. \<exists>c. Morphism_add p ia = Inr c" by auto
  from canonicalise_image_defined[OF p(2)] obtain s' where s': "canonicalise_image p ias s = Inr s'" by blast
  from Cons.IH[of s'] Cons.prems obtain r where "canonicalise_range self ras ias s' = Inr r" by auto
  with p s' show ?case by simp
qed

lemma sort_eq_of_set:
  fixes xs ys :: "('a::linorder) list"
  assumes "distinct xs" "distinct ys" "set xs = set ys"
  shows "sort xs = sort ys"
  by (rule sorted_distinct_set_unique) (use assms in simp_all)

lemma from_automorphism_form:
  "from_automorphism (graph R) g = mk_Morphism (dict_of (map (\<lambda>v. (v, g v)) (cg_vertices R)))"
  by (simp add: from_automorphism_def cg_vertices_def comp_def case_prod_unfold)

lemma identity_form:
  "identity (graph R) = mk_Morphism (dict_of (map (\<lambda>v. (v, id v)) (cg_vertices R)))"
  by (simp add: identity_def cg_vertices_def comp_def case_prod_unfold)

lemma canonicalise_characterisation:
  assumes m: "self = mk_Morphism vm" "distinct (map fst vm)"
             "set (map fst vm) = set (cg_vertices R)" "snd ` set vm \<subseteq> set (cg_vertices I)"
      and R: "distinct (cg_vertices R)"
             "\<forall>g \<in> set (automorphism_generators R). \<forall>v \<in> set (cg_vertices R). g v \<in> set (cg_vertices R)"
      and I: "distinct (cg_vertices I)"
  shows "\<exists>c. canonicalise self R I = Inr c
           \<and> (\<exists>r \<in> set (from_automorphism_generators R). \<exists>i \<in> set (from_automorphism_generators I).
                 \<exists>p q. Morphism_add r self = Inr p \<and> Morphism_add p i = Inr q \<and> Morphism_eq c q)
           \<and> (\<forall>r \<in> set (from_automorphism_generators R). \<forall>i \<in> set (from_automorphism_generators I).
                 \<exists>p q. Morphism_add r self = Inr p \<and> Morphism_add p i = Inr q \<and> Morphism_le c q)
           \<and> Morphism_le c self"
proof -
  let ?VR = "cg_vertices R" and ?VI = "cg_vertices I"
  let ?f = "\<lambda>g v. the (map_of vm (g v))"
  have val: "\<And>v. v \<in> set ?VR \<Longrightarrow> the (map_of vm v) \<in> set ?VI \<and> (v, the (map_of vm v)) \<in> set vm"
  proof -
    fix v assume "v \<in> set ?VR"
    then have "v \<in> fst ` set vm" using m(3) by simp
    then obtain w where w: "map_of vm v = Some w" by (metis domD dom_map_of_conv_image_fst)
    then have "(v, w) \<in> set vm" by (rule map_of_SomeD)
    with w m(4) show "the (map_of vm v) \<in> set ?VI \<and> (v, the (map_of vm v)) \<in> set vm" by force
  qed
  have step: "\<And>g h. \<forall>v \<in> set ?VR. g v \<in> set ?VR \<Longrightarrow>
      Morphism_add (mk_Morphism (dict_of (map (\<lambda>v. (v, g v)) ?VR))) self
        = Inr (mk_Morphism (map (\<lambda>v. (v, ?f g v)) ?VR))
      \<and> Morphism_add (mk_Morphism (map (\<lambda>v. (v, ?f g v)) ?VR)) (mk_Morphism (dict_of (map (\<lambda>w. (w, h w)) ?VI)))
        = Inr (mk_Morphism (map (\<lambda>v. (v, h (?f g v))) ?VR))"
  proof -
    fix g h assume g: "\<forall>v \<in> set ?VR. g v \<in> set ?VR"
    have a: "Morphism_add (mk_Morphism (dict_of (map (\<lambda>v. (v, g v)) ?VR))) self
        = Inr (mk_Morphism (map (\<lambda>v. (v, ?f g v)) ?VR))"
      unfolding m(1) by (rule add_generator[OF m(2) m(3) R(1) g])
    have img: "\<forall>v \<in> set ?VR. ?f g v \<in> set ?VI" using g val by blast
    have b: "Morphism_add (mk_Morphism (map (\<lambda>v. (v, ?f g v)) ?VR)) (mk_Morphism (dict_of (map (\<lambda>w. (w, h w)) ?VI)))
        = Inr (mk_Morphism (map (\<lambda>v. (v, h (?f g v))) ?VR))"
      by (rule add_image[OF R(1) img I])
    from a b show "Morphism_add (mk_Morphism (dict_of (map (\<lambda>v. (v, g v)) ?VR))) self
        = Inr (mk_Morphism (map (\<lambda>v. (v, ?f g v)) ?VR))
      \<and> Morphism_add (mk_Morphism (map (\<lambda>v. (v, ?f g v)) ?VR)) (mk_Morphism (dict_of (map (\<lambda>w. (w, h w)) ?VI)))
        = Inr (mk_Morphism (map (\<lambda>v. (v, h (?f g v))) ?VR))" by blast
  qed
  have form_R: "\<forall>ra \<in> set (from_automorphism_generators R).
      \<exists>g. (\<forall>v \<in> set ?VR. g v \<in> set ?VR) \<and> ra = mk_Morphism (dict_of (map (\<lambda>v. (v, g v)) ?VR))"
  proof
    fix ra assume "ra \<in> set (from_automorphism_generators R)"
    then consider g where "g \<in> set (automorphism_generators R)" "ra = from_automorphism (graph R) g"
      | "ra = identity (graph R)"
      by (auto simp: from_automorphism_generators_def)
    then show "\<exists>g. (\<forall>v \<in> set ?VR. g v \<in> set ?VR) \<and> ra = mk_Morphism (dict_of (map (\<lambda>v. (v, g v)) ?VR))"
    proof cases
      case 1
      then show ?thesis using R(2) from_automorphism_form[of R g] by blast
    next
      case 2
      then show ?thesis using identity_form[of R] by (intro exI[of _ id]) simp
    qed
  qed
  have form_I: "\<forall>ia \<in> set (from_automorphism_generators I).
      \<exists>h. ia = mk_Morphism (dict_of (map (\<lambda>w. (w, h w)) ?VI))"
    using from_automorphism_form[of I] identity_form[of I]
    by (auto simp: from_automorphism_generators_def)
  have comp: "\<forall>ra \<in> set (from_automorphism_generators R).
      \<exists>p. Morphism_add ra self = Inr p
        \<and> (\<forall>ia \<in> set (from_automorphism_generators I). \<exists>c. Morphism_add p ia = Inr c)"
  proof
    fix ra assume "ra \<in> set (from_automorphism_generators R)"
    with form_R obtain g where g: "\<forall>v \<in> set ?VR. g v \<in> set ?VR"
      "ra = mk_Morphism (dict_of (map (\<lambda>v. (v, g v)) ?VR))" by blast
    show "\<exists>p. Morphism_add ra self = Inr p
        \<and> (\<forall>ia \<in> set (from_automorphism_generators I). \<exists>c. Morphism_add p ia = Inr c)"
      using step[OF g(1)] g(2) form_I by metis
  qed
  from canonicalise_range_defined[OF comp] obtain c where
    c: "canonicalise self R I = Inr c" unfolding canonicalise_def by blast
  from canonicalise_range_result[OF c[unfolded canonicalise_def]] have res:
    "Morphism_le c self"
    "c = self \<or> (\<exists>ra \<in> set (from_automorphism_generators R). \<exists>ia \<in> set (from_automorphism_generators I).
        \<exists>p. Morphism_add ra self = Inr p \<and> Morphism_add p ia = Inr c)"
    "\<forall>ra \<in> set (from_automorphism_generators R). \<forall>ia \<in> set (from_automorphism_generators I).
        \<exists>p q. Morphism_add ra self = Inr p \<and> Morphism_add p ia = Inr q \<and> Morphism_le c q"
    by blast+
  have idR: "identity (graph R) \<in> set (from_automorphism_generators R)"
    and idI: "identity (graph I) \<in> set (from_automorphism_generators I)"
    by (simp_all add: from_automorphism_generators_def)
  have idc: "\<exists>p q. Morphism_add (identity (graph R)) self = Inr p
        \<and> Morphism_add p (identity (graph I)) = Inr q \<and> Morphism_eq self q"
  proof -
    have g: "\<forall>v \<in> set ?VR. id v \<in> set ?VR" by simp
    let ?q = "mk_Morphism (map (\<lambda>v. (v, id (?f id v))) ?VR)"
    have s1: "set (map (\<lambda>v. (v, id (?f id v))) ?VR) = set vm"
    proof
      show "set (map (\<lambda>v. (v, id (?f id v))) ?VR) \<subseteq> set vm" using val by auto
      show "set vm \<subseteq> set (map (\<lambda>v. (v, id (?f id v))) ?VR)"
      proof
        fix x assume x: "x \<in> set vm"
        obtain v w where vw: "x = (v, w)" by (cases x)
        with x have "map_of vm v = Some w" using m(2) by simp
        moreover have "v \<in> set ?VR" using x vw m(3) by force
        ultimately show "x \<in> set (map (\<lambda>v. (v, id (?f id v))) ?VR)" using vw by force
      qed
    qed
    have d1: "distinct (map (\<lambda>v. (v, id (?f id v))) ?VR)"
      using R(1) by (simp add: distinct_map inj_on_def)
    have d2: "distinct vm" using m(2) by (rule distinct_map[THEN iffD1, THEN conjunct1])
    have "fingerprint self = fingerprint ?q"
      unfolding m(1) mk_Morphism_def using sort_eq_of_set[OF d2 d1 s1[symmetric]] by simp
    then show ?thesis using step[OF g, of id] identity_form[of R] identity_form[of I]
      by (auto simp: Morphism_eq_def)
  qed
  have ex: "\<exists>r \<in> set (from_automorphism_generators R). \<exists>i \<in> set (from_automorphism_generators I).
                 \<exists>p q. Morphism_add r self = Inr p \<and> Morphism_add p i = Inr q \<and> Morphism_eq c q"
  proof (cases "c = self")
    case True
    then show ?thesis using idc idR idI by blast
  next
    case False
    with res(2) show ?thesis by (auto simp: Morphism_eq_def)
  qed
  from c ex res(3) res(1) show ?thesis by blast
qed

text \<open>Concrete graphs: a triangle of wildcard vertices, whose automorphism group is generated
  by two transpositions, and a triangle with three different labels, which has no symmetry.\<close>

definition swap01 :: "vertex \<Rightarrow> vertex" where
  "swap01 v = (if v = 0 then 1 else if v = 1 then 0 else v)"

definition swap12 :: "vertex \<Rightarrow> vertex" where
  "swap12 v = (if v = 1 then 2 else if v = 2 then 1 else v)"

definition ex_triangle :: CanonicalGraph where
  "ex_triangle = \<lparr>graph = \<lparr>g_vertices = [(0, ''*''), (1, ''*''), (2, ''*'')],
                             g_edges = [(0, 1, ''*''), (1, 2, ''*''), (0, 2, ''*'')]\<rparr>,
                   canonical_smiles = ''[*]1[*][*]1'',
                   automorphism_generators = [swap01, swap12]\<rparr>"

definition ex_host_triangle :: CanonicalGraph where
  "ex_host_triangle = \<lparr>graph = \<lparr>g_vertices = [(0, ''A''), (1, ''B''), (2, ''C'')],
                                  g_edges = [(0, 1, ''-''), (1, 2, ''-''), (0, 2, ''-'')]\<rparr>,
                        canonical_smiles = ''[A]1[B][C]1'',
                        automorphism_generators = []\<rparr>"

definition ex_rotation :: Morphism where
  "ex_rotation = mk_Morphism [(0, 2), (1, 0), (2, 1)]"

lemmas ex_canonicalise_defs =
  canonicalise_def ex_rotation_def ex_triangle_def ex_host_triangle_def
  from_automorphism_generators_def from_automorphism_def identity_def mk_Morphism_def dict_of_def
  Morphism_add_def items_def getitem_def swap01_def swap12_def Morphism_lt_def cg_vertices_def

lemma from_automorphism_id: "from_automorphism g id = identity g"
  by (simp add: from_automorphism_def identity_def)

lemma from_automorphism_generators_set:
  "set (from_automorphism_generators G) = from_automorphism (graph G) ` symmetries G"
  by (auto simp: from_automorphism_generators_def symmetries_def from_automorphism_id)

lemma composite_add:
  assumes m: "distinct (map fst vm)" "set (map fst vm) = set (cg_vertices R)" "snd ` set vm \<subseteq> set (cg_vertices I)"
      and R: "distinct (cg_vertices R)" "\<forall>v \<in> set (cg_vertices R). g v \<in> set (cg_vertices R)"
      and I: "distinct (cg_vertices I)"
  shows "Morphism_add (from_automorphism (graph R) g) (mk_Morphism vm)
           = Inr (mk_Morphism (map (\<lambda>v. (v, the (map_of vm (g v)))) (cg_vertices R)))
       \<and> Morphism_add (mk_Morphism (map (\<lambda>v. (v, the (map_of vm (g v)))) (cg_vertices R)))
            (from_automorphism (graph I) h)
           = Inr (composite g vm h R)"
proof -
  let ?VR = "cg_vertices R" and ?VI = "cg_vertices I"
  have val: "\<And>v. v \<in> set ?VR \<Longrightarrow> the (map_of vm v) \<in> set ?VI"
  proof -
    fix v assume "v \<in> set ?VR"
    then have "v \<in> fst ` set vm" using m(2) by simp
    then obtain w where w: "map_of vm v = Some w" by (metis domD dom_map_of_conv_image_fst)
    then have "(v, w) \<in> set vm" by (rule map_of_SomeD)
    with w m(3) show "the (map_of vm v) \<in> set ?VI" by force
  qed
  have a: "Morphism_add (from_automorphism (graph R) g) (mk_Morphism vm)
        = Inr (mk_Morphism (map (\<lambda>v. (v, the (map_of vm (g v)))) ?VR))"
    unfolding from_automorphism_form by (rule add_generator[OF m(1) m(2) R(1) R(2)])
  have img: "\<forall>v \<in> set ?VR. the (map_of vm (g v)) \<in> set ?VI" using R(2) val by blast
  have b: "Morphism_add (mk_Morphism (map (\<lambda>v. (v, the (map_of vm (g v)))) ?VR)) (from_automorphism (graph I) h)
        = Inr (composite g vm h R)"
    unfolding from_automorphism_form composite_def by (rule add_image[OF R(1) img I])
  from a b show ?thesis by blast
qed

text \<open>
  C3. Let \<open>self\<close> be a morphism from the range graph to the image graph: its dictionary has
  the range graph's vertices as keys and maps them to vertices of the image graph, vertex
  ids are unique in both graphs, and the range graph's generators map its vertices to its
  vertices. Then \<open>canonicalise\<close> raises nothing and returns a morphism \<open>c\<close> such that
  \<^item> \<open>c\<close> equals (as morphisms are compared) the composite \<open>v \<mapsto> i (self (r v))\<close> for some
    \<open>r\<close> among the range graph's generators and the identity and some \<open>i\<close> among the
    image graph's generators and the identity;
  \<^item> \<open>c\<close> is less than or equal to every such composite;
  \<^item> each such composite is what \<open>r + self + i\<close> evaluates to;
  \<^item> \<open>c\<close> is less than or equal to \<open>self\<close>.
\<close>

theorem canonicalise_smallest_composite:
  assumes "self = mk_Morphism vm" and "distinct (map fst vm)"
      and "set (map fst vm) = set (cg_vertices R)" and "snd ` set vm \<subseteq> set (cg_vertices I)"
      and "distinct (cg_vertices R)"
      and "\<forall>g \<in> set (automorphism_generators R). \<forall>v \<in> set (cg_vertices R). g v \<in> set (cg_vertices R)"
      and "distinct (cg_vertices I)"
  shows "\<exists>c. canonicalise self R I = Inr c
           \<and> (\<exists>r \<in> symmetries R. \<exists>i \<in> symmetries I. Morphism_eq c (composite r vm i R))
           \<and> (\<forall>r \<in> symmetries R. \<forall>i \<in> symmetries I. Morphism_le c (composite r vm i R))
           \<and> (\<forall>r \<in> symmetries R. \<forall>i \<in> symmetries I.
                 \<exists>p. Morphism_add (from_automorphism (graph R) r) self = Inr p
                    \<and> Morphism_add p (from_automorphism (graph I) i) = Inr (composite r vm i R))
           \<and> Morphism_le c self"
proof -
  have closed: "\<forall>r \<in> symmetries R. \<forall>v \<in> set (cg_vertices R). r v \<in> set (cg_vertices R)"
    using assms(6) by (auto simp: symmetries_def)
  have add: "\<And>r i. r \<in> symmetries R \<Longrightarrow>
      Morphism_add (from_automorphism (graph R) r) self
           = Inr (mk_Morphism (map (\<lambda>v. (v, the (map_of vm (r v)))) (cg_vertices R)))
       \<and> Morphism_add (mk_Morphism (map (\<lambda>v. (v, the (map_of vm (r v)))) (cg_vertices R)))
            (from_automorphism (graph I) i)
           = Inr (composite r vm i R)"
    unfolding assms(1) using composite_add[OF assms(2,3,4,5) _ assms(7)] closed by blast
  from canonicalise_characterisation[OF assms] obtain c where
    c: "canonicalise self R I = Inr c"
    and ex: "\<exists>r \<in> set (from_automorphism_generators R). \<exists>i \<in> set (from_automorphism_generators I).
                 \<exists>p q. Morphism_add r self = Inr p \<and> Morphism_add p i = Inr q \<and> Morphism_eq c q"
    and le: "\<forall>r \<in> set (from_automorphism_generators R). \<forall>i \<in> set (from_automorphism_generators I).
                 \<exists>p q. Morphism_add r self = Inr p \<and> Morphism_add p i = Inr q \<and> Morphism_le c q"
    and self: "Morphism_le c self" by blast
  have 1: "\<exists>r \<in> symmetries R. \<exists>i \<in> symmetries I. Morphism_eq c (composite r vm i R)"
  proof -
    from ex obtain r i p q where ri: "r \<in> symmetries R" "i \<in> symmetries I"
      and p: "Morphism_add (from_automorphism (graph R) r) self = Inr p"
      and q: "Morphism_add p (from_automorphism (graph I) i) = Inr q" and e: "Morphism_eq c q"
      unfolding from_automorphism_generators_set by auto
    from add[OF ri(1), of i] p q have "q = composite r vm i R" by simp
    with ri e show ?thesis by blast
  qed
  have 2: "\<forall>r \<in> symmetries R. \<forall>i \<in> symmetries I. Morphism_le c (composite r vm i R)"
  proof (intro ballI)
    fix r i assume ri: "r \<in> symmetries R" "i \<in> symmetries I"
    with le obtain p q where p: "Morphism_add (from_automorphism (graph R) r) self = Inr p"
      and q: "Morphism_add p (from_automorphism (graph I) i) = Inr q" and e: "Morphism_le c q"
      unfolding from_automorphism_generators_set by blast
    from add[OF ri(1), of i] p q have "q = composite r vm i R" by simp
    with e show "Morphism_le c (composite r vm i R)" by simp
  qed
  have 3: "\<forall>r \<in> symmetries R. \<forall>i \<in> symmetries I.
                 \<exists>p. Morphism_add (from_automorphism (graph R) r) self = Inr p
                    \<and> Morphism_add p (from_automorphism (graph I) i) = Inr (composite r vm i R)"
    using add by blast
  from c 1 2 3 self show ?thesis by blast
qed

theorem canonicalise_smallest_composite_witness:
  "canonicalise ex_rotation ex_triangle ex_host_triangle = Inr (mk_Morphism [(0, 0), (1, 2), (2, 1)])
   \<and> swap01 \<in> symmetries ex_triangle \<and> swap12 \<in> symmetries ex_triangle \<and> id \<in> symmetries ex_host_triangle
   \<and> composite swap01 [(0, 2), (1, 0), (2, 1)] id ex_triangle = mk_Morphism [(0, 0), (1, 2), (2, 1)]
   \<and> composite swap12 [(0, 2), (1, 0), (2, 1)] id ex_triangle = mk_Morphism [(0, 2), (1, 1), (2, 0)]
   \<and> composite id [(0, 2), (1, 0), (2, 1)] id ex_triangle = mk_Morphism [(0, 2), (1, 0), (2, 1)]
   \<and> Morphism_le (mk_Morphism [(0, 0), (1, 2), (2, 1)]) (mk_Morphism [(0, 2), (1, 1), (2, 0)])
   \<and> Morphism_le (mk_Morphism [(0, 0), (1, 2), (2, 1)]) ex_rotation"
proof -
  have v: "canonicalise ex_rotation ex_triangle ex_host_triangle = Inr (mk_Morphism [(0, 0), (1, 2), (2, 1)])"
    by (simp add: ex_canonicalise_defs)
  have s: "swap01 \<in> symmetries ex_triangle" "swap12 \<in> symmetries ex_triangle" "id \<in> symmetries ex_host_triangle"
    by (simp_all add: symmetries_def ex_triangle_def)
  have c: "composite swap01 [(0, 2), (1, 0), (2, 1)] id ex_triangle = mk_Morphism [(0, 0), (1, 2), (2, 1)]"
    "composite swap12 [(0, 2), (1, 0), (2, 1)] id ex_triangle = mk_Morphism [(0, 2), (1, 1), (2, 0)]"
    "composite id [(0, 2), (1, 0), (2, 1)] id ex_triangle = mk_Morphism [(0, 2), (1, 0), (2, 1)]"
    by (simp_all add: composite_def ex_triangle_def cg_vertices_def swap01_def swap12_def)
  have "\<exists>c. canonicalise ex_rotation ex_triangle ex_host_triangle = Inr c
           \<and> (\<exists>r \<in> symmetries ex_triangle. \<exists>i \<in> symmetries ex_host_triangle.
                 Morphism_eq c (composite r [(0, 2), (1, 0), (2, 1)] i ex_triangle))
           \<and> (\<forall>r \<in> symmetries ex_triangle. \<forall>i \<in> symmetries ex_host_triangle.
                 Morphism_le c (composite r [(0, 2), (1, 0), (2, 1)] i ex_triangle))
           \<and> (\<forall>r \<in> symmetries ex_triangle. \<forall>i \<in> symmetries ex_host_triangle.
                 \<exists>p. Morphism_add (from_automorphism (graph ex_triangle) r) ex_rotation = Inr p
                    \<and> Morphism_add p (from_automorphism (graph ex_host_triangle) i)
                        = Inr (composite r [(0, 2), (1, 0), (2, 1)] i ex_triangle))
           \<and> Morphism_le c ex_rotation"
    by (rule canonicalise_smallest_composite[where vm = "[(0, 2), (1, 0), (2, 1)]"])
       (auto simp: ex_rotation_def ex_triangle_def ex_host_triangle_def cg_vertices_def swap01_def swap12_def)
  then obtain c0 where c0: "canonicalise ex_rotation ex_triangle ex_host_triangle = Inr c0"
    and le: "\<forall>r \<in> symmetries ex_triangle. \<forall>i \<in> symmetries ex_host_triangle.
                 Morphism_le c0 (composite r [(0, 2), (1, 0), (2, 1)] i ex_triangle)"
    and self: "Morphism_le c0 ex_rotation" by blast
  from c0 v have e: "c0 = mk_Morphism [(0, 0), (1, 2), (2, 1)]" by simp
  from le s(2) s(3) have "Morphism_le c0 (composite swap12 [(0, 2), (1, 0), (2, 1)] id ex_triangle)" by blast
  then have l1: "Morphism_le (mk_Morphism [(0, 0), (1, 2), (2, 1)]) (mk_Morphism [(0, 2), (1, 1), (2, 0)])"
    unfolding e c(2) .
  from self have l2: "Morphism_le (mk_Morphism [(0, 0), (1, 2), (2, 1)]) ex_rotation" unfolding e .
  from v s c l1 l2 show ?thesis by (intro conjI)
qed

section \<open>Canonical representatives and composition with a generator\<close>

lemma generator_morphism_form:
  assumes "ra \<in> set (from_automorphism_generators R)"
      and "distinct (cg_vertices R)"
      and "\<forall>g \<in> set (automorphism_generators R). \<forall>v \<in> set (cg_vertices R). g v \<in> set (cg_vertices R)"
  shows "\<exists>g. (\<forall>v \<in> set (cg_vertices R). g v \<in> set (cg_vertices R))
           \<and> ra = mk_Morphism (map (\<lambda>v. (v, g v)) (cg_vertices R))"
proof -
  have d: "\<And>g. dict_of (map (\<lambda>v. (v, g v)) (cg_vertices R)) = map (\<lambda>v. (v, g v)) (cg_vertices R)"
    using assms(2) by (intro dict_of_distinct) (simp add: comp_def)
  from assms(1) consider g where "g \<in> set (automorphism_generators R)" "ra = from_automorphism (graph R) g"
    | "ra = identity (graph R)"
    by (auto simp: from_automorphism_generators_def)
  then show ?thesis
  proof cases
    case 1
    then show ?thesis using assms(3) from_automorphism_form[of R g] d by metis
  next
    case 2
    then show ?thesis using identity_form[of R] d[of id] by (intro exI[of _ id]) simp
  qed
qed

definition ex_mirror :: CanonicalGraph where
  "ex_mirror = \<lparr>graph = \<lparr>g_vertices = [(0, ''*''), (1, ''*''), (2, ''X'')],
                           g_edges = [(0, 1, ''*''), (1, 2, ''*''), (0, 2, ''*'')]\<rparr>,
                 canonical_smiles = ''[*]1[*][X]1'',
                 automorphism_generators = [swap01]\<rparr>"

text \<open>
  C4 (as the code has it). \<open>canonicalise\<close> tries the generators and the identity only, not
  the group they generate. For a morphism from the range graph to the image graph (as in
  C3) and a generator \<open>g\<close> of the range graph, \<open>canonicalise (g + self)\<close> equals
  \<open>canonicalise self\<close> whenever composing with \<open>g\<close> maps the range graph's list of generators
  and identity onto itself (for instance when that list is the whole automorphism group).
\<close>

theorem canonicalise_closed_generator:
  assumes m: "self = mk_Morphism vm" "distinct (map fst vm)"
             "set (map fst vm) = set (cg_vertices R)" "snd ` set vm \<subseteq> set (cg_vertices I)"
      and R: "distinct (cg_vertices R)"
             "\<forall>g \<in> set (automorphism_generators R). \<forall>v \<in> set (cg_vertices R). g v \<in> set (cg_vertices R)"
      and I: "distinct (cg_vertices I)"
      and g: "g \<in> set (automorphism_generators R)"
      and closed: "(\<lambda>r. Morphism_add r (from_automorphism (graph R) g)) ` set (from_automorphism_generators R)
                     = Inr ` set (from_automorphism_generators R)"
  shows "\<exists>p c1 c2. Morphism_add (from_automorphism (graph R) g) self = Inr p
           \<and> canonicalise p R I = Inr c1 \<and> canonicalise self R I = Inr c2 \<and> Morphism_eq c1 c2"
proof -
  let ?VR = "cg_vertices R" and ?VI = "cg_vertices I"
  let ?A = "set (from_automorphism_generators R)" and ?B = "set (from_automorphism_generators I)"
  let ?gm = "from_automorphism (graph R) g"
  let ?pm = "map (\<lambda>v. (v, the (map_of vm (g v)))) ?VR"
  let ?p = "mk_Morphism ?pm"
  have gcl: "\<forall>v \<in> set ?VR. g v \<in> set ?VR" using R(2) g by blast
  have dg: "\<And>h. dict_of (map (\<lambda>v. (v, h v)) ?VR) = map (\<lambda>v. (v, h v)) ?VR"
    using R(1) by (intro dict_of_distinct) (simp add: comp_def)
  have gm: "?gm = mk_Morphism (dict_of (map (\<lambda>v. (v, g v)) ?VR))" by (rule from_automorphism_form)
  have p: "Morphism_add ?gm self = Inr ?p"
    unfolding gm m(1) by (rule add_generator[OF m(2) m(3) R(1) gcl])
  have val: "\<And>v. v \<in> set ?VR \<Longrightarrow> the (map_of vm v) \<in> set ?VI"
  proof -
    fix v assume "v \<in> set ?VR"
    then have "v \<in> fst ` set vm" using m(3) by simp
    then obtain w where w: "map_of vm v = Some w" by (metis domD dom_map_of_conv_image_fst)
    then have "(v, w) \<in> set vm" by (rule map_of_SomeD)
    with w m(4) show "the (map_of vm v) \<in> set ?VI" by force
  qed
  have p1: "distinct (map fst ?pm)" using R(1) by (simp add: comp_def)
  have p2: "set (map fst ?pm) = set ?VR" by (simp add: comp_def)
  have p3: "snd ` set ?pm \<subseteq> set ?VI" using val gcl by auto
  from canonicalise_characterisation[OF refl p1 p2 p3 R I] obtain c1 where c1:
    "canonicalise ?p R I = Inr c1"
    "\<exists>r \<in> ?A. \<exists>i \<in> ?B. \<exists>x q. Morphism_add r ?p = Inr x \<and> Morphism_add x i = Inr q \<and> Morphism_eq c1 q"
    "\<forall>r \<in> ?A. \<forall>i \<in> ?B. \<exists>x q. Morphism_add r ?p = Inr x \<and> Morphism_add x i = Inr q \<and> Morphism_le c1 q"
    by blast
  from canonicalise_characterisation[OF m R I] obtain c2 where c2:
    "canonicalise self R I = Inr c2"
    "\<exists>r \<in> ?A. \<exists>i \<in> ?B. \<exists>x q. Morphism_add r self = Inr x \<and> Morphism_add x i = Inr q \<and> Morphism_eq c2 q"
    "\<forall>r \<in> ?A. \<forall>i \<in> ?B. \<exists>x q. Morphism_add r self = Inr x \<and> Morphism_add x i = Inr q \<and> Morphism_le c2 q"
    by blast
  have K: "\<And>r r'. r \<in> ?A \<Longrightarrow> Morphism_add r ?gm = Inr r' \<Longrightarrow> Morphism_add r ?p = Morphism_add r' self"
  proof -
    fix r r' assume r: "r \<in> ?A" and rr: "Morphism_add r ?gm = Inr r'"
    from generator_morphism_form[OF r R] obtain h where h: "\<forall>v \<in> set ?VR. h v \<in> set ?VR"
      "r = mk_Morphism (map (\<lambda>v. (v, h v)) ?VR)" by blast
    have "Morphism_add r ?gm = Inr (mk_Morphism (map (\<lambda>v. (v, g (h v))) ?VR))"
      unfolding h(2) gm by (rule add_image[OF R(1) h(1) R(1)])
    with rr have r': "r' = mk_Morphism (dict_of (map (\<lambda>v. (v, (g \<circ> h) v)) ?VR))"
      using dg[of "g \<circ> h"] by simp
    have gh: "\<forall>v \<in> set ?VR. (g \<circ> h) v \<in> set ?VR" using gcl h(1) by simp
    have a: "Morphism_add r' self = Inr (mk_Morphism (map (\<lambda>v. (v, the (map_of vm ((g \<circ> h) v)))) ?VR))"
      unfolding r' m(1) by (rule add_generator[OF m(2) m(3) R(1) gh])
    have b: "Morphism_add r ?p = Inr (mk_Morphism (map (\<lambda>v. (v, the (map_of ?pm (h v)))) ?VR))"
      using add_generator[OF p1 p2 R(1) h(1)] h(2) dg[of h] by simp
    have look: "\<And>v. v \<in> set ?VR \<Longrightarrow> map_of ?pm (h v) = Some (the (map_of vm (g (h v))))"
      using h(1) by (simp add: map_of_map_restrict)
    have "map (\<lambda>v. (v, the (map_of ?pm (h v)))) ?VR = map (\<lambda>v. (v, the (map_of vm ((g \<circ> h) v)))) ?VR"
      using look by simp
    with a b show "Morphism_add r ?p = Morphism_add r' self" by simp
  qed
  have le12: "Morphism_le c1 c2"
  proof -
    from c2(2) obtain r' i x q where q: "r' \<in> ?A" "i \<in> ?B" "Morphism_add r' self = Inr x"
      "Morphism_add x i = Inr q" "Morphism_eq c2 q" by blast
    from q(1) closed obtain r where r: "r \<in> ?A" "Morphism_add r ?gm = Inr r'" by (metis image_iff)
    from K[OF r] q(3) have "Morphism_add r ?p = Inr x" by simp
    with c1(3) r(1) q(2) q(4) have "Morphism_le c1 q" by fastforce
    with q(5) show ?thesis by (simp add: Morphism_le_def Morphism_eq_def)
  qed
  have le21: "Morphism_le c2 c1"
  proof -
    from c1(2) obtain r i x q where q: "r \<in> ?A" "i \<in> ?B" "Morphism_add r ?p = Inr x"
      "Morphism_add x i = Inr q" "Morphism_eq c1 q" by blast
    from q(1) closed obtain r' where r': "r' \<in> ?A" "Morphism_add r ?gm = Inr r'" by (metis image_iff)
    from K[OF q(1) r'(2)] q(3) have "Morphism_add r' self = Inr x" by simp
    with c2(3) r'(1) q(2) q(4) have "Morphism_le c2 q" by fastforce
    with q(5) show ?thesis by (simp add: Morphism_le_def Morphism_eq_def)
  qed
  from le12 le21 have "Morphism_eq c1 c2" by (simp add: Morphism_le_def Morphism_eq_def)
  with p c1(1) c2(1) show ?thesis by blast
qed

theorem canonicalise_closed_generator_witness:
  "\<exists>p c1 c2. Morphism_add (from_automorphism (graph ex_mirror) swap01) ex_rotation = Inr p
      \<and> canonicalise p ex_mirror ex_host_triangle = Inr c1
      \<and> canonicalise ex_rotation ex_mirror ex_host_triangle = Inr c2
      \<and> Morphism_eq c1 c2"
  by (rule canonicalise_closed_generator[where vm = "[(0, 2), (1, 0), (2, 1)]"])
     (auto simp: ex_rotation_def ex_mirror_def ex_host_triangle_def cg_vertices_def swap01_def
        from_automorphism_generators_def from_automorphism_def identity_def mk_Morphism_def
        dict_of_def Morphism_add_def items_def getitem_def)

text \<open>
  The claim as written fails where the generators are not closed under composition: on
  the wildcard triangle with generators \<open>(0 1)\<close> and \<open>(1 2)\<close>, the morphism
  \<open>{0: 2, 1: 0, 2: 1}\<close> canonicalises to \<open>{0: 0, 1: 2, 2: 1}\<close>, while its composition with
  the generator \<open>(0 1)\<close>, which is \<open>{0: 0, 1: 2, 2: 1}\<close>, canonicalises to the identity.
\<close>

theorem canonicalise_generator_counterexample:
  "Morphism_add (from_automorphism (graph ex_triangle) swap01) ex_rotation
     = Inr (mk_Morphism [(0, 0), (1, 2), (2, 1)])
   \<and> canonicalise (mk_Morphism [(0, 0), (1, 2), (2, 1)]) ex_triangle ex_host_triangle
     = Inr (mk_Morphism [(0, 0), (1, 1), (2, 2)])
   \<and> canonicalise ex_rotation ex_triangle ex_host_triangle
     = Inr (mk_Morphism [(0, 0), (1, 2), (2, 1)])
   \<and> \<not> Morphism_eq (mk_Morphism [(0, 0), (1, 1), (2, 2)]) (mk_Morphism [(0, 0), (1, 2), (2, 1)])"
  by (simp add: ex_canonicalise_defs Morphism_eq_def)

section \<open>Sets, extensions and successors\<close>

lemma set_add_bounds: "set acc \<subseteq> set (set_add eq acc x)" "set (set_add eq acc x) \<subseteq> insert x (set acc)"
  by (auto simp: set_add_def)

lemma set_add_covers: "eq x x \<Longrightarrow> \<exists>y \<in> set (set_add eq acc x). eq y x"
  by (auto simp: set_add_def)

lemma foldl_set_add_lower: "set acc \<subseteq> set (foldl (set_add eq) acc xs)"
proof (induction xs arbitrary: acc)
  case Nil
  then show ?case by simp
next
  case (Cons a xs)
  have "set acc \<subseteq> set (set_add eq acc a)" by (rule set_add_bounds)
  also have "\<dots> \<subseteq> set (foldl (set_add eq) (set_add eq acc a) xs)" by (rule Cons.IH)
  finally show ?case by simp
qed

lemma foldl_set_add_upper: "set (foldl (set_add eq) acc xs) \<subseteq> set acc \<union> set xs"
proof (induction xs arbitrary: acc)
  case Nil
  then show ?case by simp
next
  case (Cons a xs)
  have "set (foldl (set_add eq) (set_add eq acc a) xs) \<subseteq> set (set_add eq acc a) \<union> set xs" by (rule Cons.IH)
  also have "\<dots> \<subseteq> insert a (set acc) \<union> set xs" using set_add_bounds(2)[of eq acc a] by auto
  finally show ?case by auto
qed

lemma foldl_set_add_covers:
  assumes "\<And>x. eq x x"
  shows "x \<in> set xs \<Longrightarrow> \<exists>y \<in> set (foldl (set_add eq) acc xs). eq y x"
proof (induction xs arbitrary: acc)
  case Nil
  then show ?case by simp
next
  case (Cons a xs)
  show ?case
  proof (cases "x \<in> set xs")
    case True
    from Cons.IH[OF True] show ?thesis by simp
  next
    case False
    with Cons.prems have xa: "x = a" by simp
    from set_add_covers[of eq a acc] assms obtain y where y: "y \<in> set (set_add eq acc a)" "eq y a" by blast
    with foldl_set_add_lower[of "set_add eq acc a" eq xs] xa show ?thesis by auto
  qed
qed

lemma py_set_subset: "set (py_set eq xs) \<subseteq> set xs"
  using foldl_set_add_upper[of eq "[]" xs] by (simp add: py_set_def)

lemma py_set_covers:
  assumes "\<And>x. eq x x" and "x \<in> set xs"
  shows "\<exists>y \<in> set (py_set eq xs). eq y x"
  using foldl_set_add_covers[of eq x xs "[]"] assms by (simp add: py_set_def)

lemma collect_Inr: "collect xs = Inr ys \<Longrightarrow> xs = map Inr ys"
proof (induction xs arbitrary: ys)
  case Nil
  then show ?case by simp
next
  case (Cons x xs)
  then show ?case by (auto split: sum.splits)
qed

lemma build_embeddings_host:
  "build_embeddings ev self gen = Inr es \<Longrightarrow> e' \<in> set es \<Longrightarrow> host_transition e' = host_transition self"
  by (auto simp: build_embeddings_def mk_Embedding_def split: sum.splits)

lemma extensions_host:
  "extensions ev self = Inr es \<Longrightarrow> e' \<in> set es \<Longrightarrow> host_transition e' = host_transition self"
  unfolding extensions_def
  by (cases "build_embeddings ev self
          (label_specifications ev self
           @ (if number_of_edges (rg_graph (e_pattern self))
                   < number_of_edges (rg_graph (maximal_subrule (host_transition self)))
              then edge_additions ev self else []))")
     (auto dest: build_embeddings_host)

lemma group_extension_members:
  assumes inv: "\<forall>p es. (p, es) \<in> set exts \<longrightarrow> set es \<subseteq> S" and x: "x \<in> S"
  shows "\<forall>p es. (p, es) \<in> set (group_extension exts x) \<longrightarrow> set es \<subseteq> S"
proof (intro allI impI)
  fix p es assume m: "(p, es) \<in> set (group_extension exts x)"
  show "set es \<subseteq> S"
  proof (cases "\<exists>(p, es) \<in> set exts. RuleGraph_eq p (e_pattern x)")
    case True
    with m obtain q old where q: "(q, old) \<in> set exts"
      "(p, es) = (if RuleGraph_eq q (e_pattern x) then (q, add_embedding old x) else (q, old))"
      by (auto simp: group_extension_def)
    from inv q(1) have old: "set old \<subseteq> S" by blast
    show ?thesis
    proof (cases "RuleGraph_eq q (e_pattern x)")
      case True
      with q(2) have "es = set_add Embedding_eq old x" by (simp add: add_embedding_def)
      with set_add_bounds(2)[of Embedding_eq old x] old x show ?thesis by auto
    next
      case False
      with q(2) have "es = old" by simp
      with old show ?thesis by simp
    qed
  next
    case False
    with m have "(p, es) \<in> set exts \<or> es = [x]" by (auto simp: group_extension_def)
    with inv x show ?thesis by auto
  qed
qed

lemma foldl_group_extension_members:
  "\<forall>p es. (p, es) \<in> set exts \<longrightarrow> set es \<subseteq> S \<Longrightarrow> set xs \<subseteq> S \<Longrightarrow>
   \<forall>p es. (p, es) \<in> set (foldl group_extension exts xs) \<longrightarrow> set es \<subseteq> S"
proof (induction xs arbitrary: exts)
  case Nil
  then show ?case by simp
next
  case (Cons x xs)
  have x: "x \<in> S" and xs: "set xs \<subseteq> S" using Cons.prems(2) by simp_all
  from Cons.IH[OF group_extension_members[OF Cons.prems(1) x] xs] show ?case by simp
qed

lemma embeddings_mk_LatticeNode: "embeddings (mk_LatticeNode es) = es"
  by (simp add: mk_LatticeNode_def Let_def)

lemma successors_fresh_embeddings:
  assumes "\<not> successors_truthy N" and "successors ev N = Inr cs" and "c \<in> set cs" and "e' \<in> set (embeddings c)"
  shows "\<exists>e \<in> set (embeddings N). \<exists>es. extensions ev e = Inr es \<and> e' \<in> set es"
proof -
  from assms(1,2,3) obtain xss where xss: "collect (map (extensions ev) (embeddings N)) = Inr xss"
    and cs: "cs = map (\<lambda>(extension, embs). mk_LatticeNode embs) (foldl group_extension [] (concat xss))"
    by (auto simp: successors_def split: if_splits sum.splits)
  from cs assms(3) obtain p es where pes: "(p, es) \<in> set (foldl group_extension [] (concat xss))"
    "c = mk_LatticeNode es" by auto
  have "set es \<subseteq> set (concat xss)"
    using foldl_group_extension_members[of "[]" "set (concat xss)" "concat xss"] pes(1) by simp
  with pes(2) assms(4) have "e' \<in> set (concat xss)" by (auto simp: embeddings_mk_LatticeNode)
  then obtain xs where xs: "xs \<in> set xss" "e' \<in> set xs" by auto
  from collect_Inr[OF xss] have "map (extensions ev) (embeddings N) = map Inr xss" .
  with xs(1) have "Inr xs \<in> set (map (extensions ev) (embeddings N))" by simp
  then obtain e where "e \<in> set (embeddings N)" "extensions ev e = Inr xs" by auto
  with xs(2) show ?thesis by blast
qed

lemma Transition_eq_refl: "Transition_eq t t"
  by (simp add: Transition_eq_def RuleGraph_eq_def)

text \<open>
  C9. Every embedding that \<open>extensions\<close> yields for an embedding has that embedding's host
  transition. Hence every host transition of a node that \<open>successors\<close> builds from the
  extensions of a node's embeddings is the host transition of one of that node's
  embeddings, and equals one of that node's host transitions: a successor never covers a
  transition that the node does not cover.
\<close>

theorem extensions_keep_host_transition:
  "(\<forall>es. extensions ev e = Inr es \<longrightarrow> (\<forall>e' \<in> set es. host_transition e' = host_transition e))
   \<and> (\<forall>cs. \<not> successors_truthy N \<longrightarrow> successors ev N = Inr cs \<longrightarrow>
         (\<forall>c \<in> set cs. \<forall>t \<in> set (host_transitions c).
            t \<in> host_transition ` set (embeddings N) \<and> (\<exists>t' \<in> set (host_transitions N). Transition_eq t' t)))"
proof (intro conjI allI impI ballI)
  fix es e' assume "extensions ev e = Inr es" "e' \<in> set es"
  then show "host_transition e' = host_transition e" by (rule extensions_host)
next
  fix cs c t
  assume a: "\<not> successors_truthy N" "successors ev N = Inr cs" "c \<in> set cs" "t \<in> set (host_transitions c)"
  from a(4) py_set_subset[of Transition_eq "map host_transition (embeddings c)"]
  obtain e' where e': "e' \<in> set (embeddings c)" "t = host_transition e'"
    by (auto simp: host_transitions_def)
  from successors_fresh_embeddings[OF a(1,2,3) e'(1)] obtain e es where
    e: "e \<in> set (embeddings N)" "extensions ev e = Inr es" "e' \<in> set es" by blast
  from extensions_host[OF e(2,3)] e'(2) have te: "t = host_transition e" by simp
  with e(1) show "t \<in> host_transition ` set (embeddings N)" by simp
  from te e(1) have "t \<in> set (map host_transition (embeddings N))" by simp
  from py_set_covers[of Transition_eq, OF Transition_eq_refl this]
  show "\<exists>t' \<in> set (host_transitions N). Transition_eq t' t" by (simp add: host_transitions_def)
qed

lemma coverage_value:
  "coverage_cache_ok n \<Longrightarrow> fst (coverage n) = sorted_transitions (host_transitions n)"
  by (auto simp: coverage_def coverage_cache_ok_def Let_def split: option.splits list.splits)

lemma coverage_node:
  "embeddings (snd (coverage n)) = embeddings n"
  "n_pattern (snd (coverage n)) = n_pattern n"
  "successors_cache (snd (coverage n)) = successors_cache n"
  by (auto simp: coverage_def Let_def split: option.splits list.splits)

lemma coverage_node_ok: "coverage_cache_ok n \<Longrightarrow> coverage_cache_ok (snd (coverage n))"
  by (auto simp: coverage_def coverage_cache_ok_def host_transitions_def Let_def split: option.splits list.splits)

lemma host_transitions_cong: "embeddings a = embeddings b \<Longrightarrow> host_transitions a = host_transitions b"
  by (simp add: host_transitions_def)

lemma coverage_eq_keys:
  "coverage_eq c d
     = (map (\<lambda>t. canonical_smiles (rg_graph (maximal_subrule t))) c
        = map (\<lambda>t. canonical_smiles (rg_graph (maximal_subrule t))) d)"
  unfolding coverage_eq_def
proof (induction c arbitrary: d)
  case Nil
  then show ?case by auto
next
  case (Cons a c)
  then show ?case by (cases d) (auto simp: Transition_eq_def RuleGraph_eq_def)
qed

lemma scan_children_result:
  assumes "coverage_cache_ok self" and "\<forall>c \<in> set children. coverage_cache_ok c"
      and "scan_children self children acc = (self', res)"
  shows "embeddings self' = embeddings self \<and> n_pattern self' = n_pattern self
       \<and> successors_cache self' = successors_cache self \<and> coverage_cache_ok self'
       \<and> (\<forall>child. res = Inl child \<longrightarrow>
             coverage_cache_ok child
             \<and> coverage_eq (sorted_transitions (host_transitions child)) (sorted_transitions (host_transitions self)))"
  using assms
proof (induction children arbitrary: self acc)
  case Nil
  then show ?case by auto
next
  case (Cons child rest)
  obtain cc child' where c: "coverage child = (cc, child')" by (cases "coverage child")
  obtain sc self1 where s: "coverage self = (sc, self1)" by (cases "coverage self")
  have cok: "coverage_cache_ok child" using Cons.prems(2) by simp
  have cc: "cc = sorted_transitions (host_transitions child)" using coverage_value[OF cok] c by simp
  have sc: "sc = sorted_transitions (host_transitions self)" using coverage_value[OF Cons.prems(1)] s by simp
  have s1: "embeddings self1 = embeddings self" "n_pattern self1 = n_pattern self"
    "successors_cache self1 = successors_cache self" "coverage_cache_ok self1"
    using coverage_node[of self] coverage_node_ok[OF Cons.prems(1)] s by simp_all
  have c1: "embeddings child' = embeddings child" "coverage_cache_ok child'"
    using coverage_node(1)[of child] coverage_node_ok[OF cok] c by simp_all
  show ?case
  proof (cases "coverage_eq cc sc")
    case True
    with Cons.prems(3) c s have "self' = self1" "res = Inl child'" by simp_all
    with s1 c1 True cc sc host_transitions_cong[OF c1(1)] show ?thesis by simp
  next
    case False
    with Cons.prems(3) c s have r: "scan_children self1 rest (acc @ [child']) = (self', res)" by simp
    have rest: "\<forall>c \<in> set rest. coverage_cache_ok c" using Cons.prems(2) by simp
    from Cons.IH[OF s1(4) rest r] s1 host_transitions_cong[OF s1(1)] show ?thesis by simp
  qed
qed

lemma scan_children_all:
  "scan_children self children acc = (self', Inr succs) \<Longrightarrow>
     length succs = length acc + length children \<and> (children = [] \<longrightarrow> self' = self \<and> succs = acc)"
proof (induction children arbitrary: self acc)
  case Nil
  then show ?case by simp
next
  case (Cons child rest)
  obtain cc child' where c: "coverage child = (cc, child')" by (cases "coverage child")
  obtain sc self1 where s: "coverage self = (sc, self1)" by (cases "coverage self")
  from Cons.prems c s have "scan_children self1 rest (acc @ [child']) = (self', Inr succs)"
    by (auto split: if_splits)
  from Cons.IH[OF this] show ?case by simp
qed

lemma successors_fresh_cache:
  "\<not> successors_truthy self \<Longrightarrow> successors ev self = Inr children \<Longrightarrow> c \<in> set children \<Longrightarrow>
     coverage_cache_ok c"
  by (auto simp: successors_def coverage_cache_ok_def mk_LatticeNode_def Let_def split: if_splits sum.splits)

lemma gmcs_coverage:
  assumes "get_maximum_common_subrule ev N = Some y"
  shows "coverage_cache_ok N \<longrightarrow> (\<forall>r. y = Inr r \<longrightarrow>
           coverage_cache_ok r
           \<and> coverage_eq (sorted_transitions (host_transitions r)) (sorted_transitions (host_transitions N)))"
proof (rule get_maximum_common_subrule.raw_induct[where P = "\<lambda>ev N y. coverage_cache_ok N \<longrightarrow> (\<forall>r. y = Inr r \<longrightarrow>
           coverage_cache_ok r
           \<and> coverage_eq (sorted_transitions (host_transitions r)) (sorted_transitions (host_transitions N)))",
         OF _ assms], goal_cases)
  case (1 f ev self y)
  show ?case
  proof (intro impI allI)
    fix r assume ok: "coverage_cache_ok self" and y: "y = Inr r"
    show "coverage_cache_ok r
           \<and> coverage_eq (sorted_transitions (host_transitions r)) (sorted_transitions (host_transitions self))"
    proof (cases "successors_truthy self")
      case True
      with 1(2) y ok show ?thesis by (simp add: coverage_eq_keys)
    next
      case False
      with 1(2) y obtain children where ch: "successors ev self = Inr children"
        by (auto split: sum.splits)
      obtain self' res where sc: "scan_children self children [] = (self', res)"
        by (cases "scan_children self children []")
      have fresh: "\<forall>c \<in> set children. coverage_cache_ok c"
        using successors_fresh_cache[OF False ch] by blast
      note sr = scan_children_result[OF ok fresh sc]
      show ?thesis
      proof (cases res)
        case (Inl child)
        with 1(2) False ch sc y have rec: "f ev child = Some (Inr r)" by simp
        from sr Inl have c: "coverage_cache_ok child"
          "coverage_eq (sorted_transitions (host_transitions child)) (sorted_transitions (host_transitions self))"
          by simp_all
        from 1(1)[OF rec] c(1) have "coverage_cache_ok r"
          "coverage_eq (sorted_transitions (host_transitions r)) (sorted_transitions (host_transitions child))"
          by simp_all
        with c(2) show ?thesis by (simp add: coverage_eq_keys)
      next
        case (Inr succs)
        with 1(2) False ch sc y have r: "r = set_successors self' succs" by simp
        have er: "embeddings r = embeddings self'" "coverage_cache r = coverage_cache self'"
          using r by (simp_all add: set_successors_def)
        have "embeddings r = embeddings self" using er sr by simp
        moreover have "coverage_cache_ok r"
        proof -
          have ok': "coverage_cache_ok self'" using sr by blast
          have ht: "host_transitions r = host_transitions self'" by (rule host_transitions_cong[OF er(1)])
          show ?thesis unfolding coverage_cache_ok_def er(2) ht using ok'[unfolded coverage_cache_ok_def] .
        qed
        ultimately show ?thesis using host_transitions_cong[of r self] by (simp add: coverage_eq_keys)
      qed
    qed
  qed
qed

lemma gmcs_fixed_point:
  assumes "get_maximum_common_subrule ev N = Some y"
  shows "\<forall>r. y = Inr r \<longrightarrow> get_maximum_common_subrule ev r = Some (Inr r)"
proof (rule get_maximum_common_subrule.raw_induct[where P = "\<lambda>ev N y. \<forall>r. y = Inr r \<longrightarrow> get_maximum_common_subrule ev r = Some (Inr r)",
         OF _ assms], goal_cases)
  case (1 f ev self y)
  show ?case
  proof (intro allI impI)
    fix r assume y: "y = Inr r"
    show "get_maximum_common_subrule ev r = Some (Inr r)"
    proof (cases "successors_truthy self")
      case True
      with 1(2) y have "r = self" by simp
      with True show ?thesis by (subst get_maximum_common_subrule.simps) simp
    next
      case False
      with 1(2) y obtain children where ch: "successors ev self = Inr children"
        by (auto split: sum.splits)
      obtain self' res where sc: "scan_children self children [] = (self', res)"
        by (cases "scan_children self children []")
      show ?thesis
      proof (cases res)
        case (Inl child)
        with 1(2) False ch sc y have "f ev child = Some (Inr r)" by simp
        from 1(1)[OF this] show ?thesis by simp
      next
        case (Inr succs)
        with 1(2) False ch sc y have r: "r = set_successors self' succs" by simp
        show ?thesis
        proof (cases succs)
          case (Cons a list)
          with r have "successors_truthy r" by (simp add: set_successors_def successors_truthy_def)
          then show ?thesis by (subst get_maximum_common_subrule.simps) simp
        next
          case Nil
          from scan_children_all[OF sc[unfolded Inr]] Nil have e: "children = []" "self' = self" by auto
          have nt: "\<not> successors_truthy r" using r Nil by (simp add: set_successors_def successors_truthy_def)
          have same: "successors ev r = successors ev self"
            using r e(2) nt False by (simp add: successors_def set_successors_def)
          have fixd: "set_successors r [] = r" using r Nil by (simp add: set_successors_def)
          show ?thesis
            by (subst get_maximum_common_subrule.simps) (simp add: nt same ch e(1) fixd)
        qed
      qed
    qed
  qed
qed

section \<open>The maximal common subrule\<close>

lemma scan_children_none:
  assumes "coverage_cache_ok self"
      and "\<forall>c \<in> set children. coverage_cache_ok c \<and> \<not> coverage_eq (fst (coverage c)) (fst (coverage self))"
  shows "\<exists>self' succs. scan_children self children acc = (self', Inr succs)"
  using assms
proof (induction children arbitrary: self acc)
  case Nil
  then show ?case by simp
next
  case (Cons child rest)
  obtain cc child' where c: "coverage child = (cc, child')" by (cases "coverage child")
  obtain sc self1 where s: "coverage self = (sc, self1)" by (cases "coverage self")
  have ne: "\<not> coverage_eq cc sc" using Cons.prems(2) c s by simp
  have ok1: "coverage_cache_ok self1" using coverage_node_ok[OF Cons.prems(1)] s by simp
  have same: "fst (coverage self1) = fst (coverage self)"
    using coverage_value[OF ok1] coverage_value[OF Cons.prems(1)]
      host_transitions_cong[of self1 self] coverage_node(1)[of self] s by simp
  have rest: "\<forall>c \<in> set rest. coverage_cache_ok c \<and> \<not> coverage_eq (fst (coverage c)) (fst (coverage self1))"
    using Cons.prems(2) same by simp
  from Cons.IH[OF ok1 rest, of "acc @ [child']"] ne c s show ?case by simp
qed

lemma descent_ends_returns:
  "descent_ends ev N \<Longrightarrow> \<exists>y. get_maximum_common_subrule ev N = Some y"
proof (induction rule: descent_ends.induct)
  case (cached N)
  then show ?case by (subst get_maximum_common_subrule.simps) simp
next
  case (raises N e)
  then show ?case by (subst get_maximum_common_subrule.simps) simp
next
  case (stops N children N' succs)
  then show ?case by (subst get_maximum_common_subrule.simps) simp
next
  case (descends N children N' child)
  then show ?case by (subst get_maximum_common_subrule.simps) simp
qed

lemma gmcs_stops:
  assumes ok: "coverage_cache_ok N" and nt: "\<not> successors_truthy N" and ch: "successors ev N = Inr children"
      and none: "\<forall>c \<in> set children. \<not> coverage_eq (fst (coverage c)) (fst (coverage N))"
  shows "\<exists>r. get_maximum_common_subrule ev N = Some (Inr r)
           \<and> embeddings r = embeddings N \<and> n_pattern r = n_pattern N
           \<and> (\<exists>succs. successors_cache r = Some succs \<and> length succs = length children)"
proof -
  have fresh: "\<forall>c \<in> set children. coverage_cache_ok c"
    using successors_fresh_cache[OF nt ch] by blast
  from scan_children_none[OF ok, of children "[]"] fresh none
  obtain self' succs where sc: "scan_children N children [] = (self', Inr succs)" by blast
  have r: "get_maximum_common_subrule ev N = Some (Inr (set_successors self' succs))"
    using nt ch sc by (subst get_maximum_common_subrule.simps) simp
  from scan_children_result[OF ok fresh sc] scan_children_all[OF sc] r
  show ?thesis by (simp add: set_successors_def)
qed

text \<open>
  C1. For a node whose coverage cache, if filled, holds the coverage of its embeddings
  (true of every node the constructor makes, and kept by every operation):
  \<^item> when the descent from the node ends, \<open>get_maximum_common_subrule\<close> returns;
  \<^item> a node that it returns has a coverage equal to the node's own;
  \<^item> when no successor has the node's coverage, it returns the node itself (the same
    embeddings and pattern), with its successors cached.
\<close>

theorem maximum_common_subrule_keeps_coverage:
  assumes "coverage_cache_ok N"
  shows "(descent_ends ev N \<longrightarrow> (\<exists>y. get_maximum_common_subrule ev N = Some y))
       \<and> (\<forall>r. get_maximum_common_subrule ev N = Some (Inr r) \<longrightarrow>
             coverage_eq (fst (coverage r)) (fst (coverage N)))
       \<and> (\<forall>children. \<not> successors_truthy N \<longrightarrow> successors ev N = Inr children \<longrightarrow>
             (\<forall>c \<in> set children. \<not> coverage_eq (fst (coverage c)) (fst (coverage N))) \<longrightarrow>
             (\<exists>r. get_maximum_common_subrule ev N = Some (Inr r)
                \<and> embeddings r = embeddings N \<and> n_pattern r = n_pattern N
                \<and> (\<exists>succs. successors_cache r = Some succs \<and> length succs = length children)))"
proof (intro conjI allI impI)
  assume "descent_ends ev N"
  then show "\<exists>y. get_maximum_common_subrule ev N = Some y" by (rule descent_ends_returns)
next
  fix r assume g: "get_maximum_common_subrule ev N = Some (Inr r)"
  from gmcs_coverage[OF g] assms have r: "coverage_cache_ok r"
    "coverage_eq (sorted_transitions (host_transitions r)) (sorted_transitions (host_transitions N))"
    by simp_all
  with assms show "coverage_eq (fst (coverage r)) (fst (coverage N))"
    by (simp add: coverage_value)
next
  fix children
  assume "\<not> successors_truthy N" "successors ev N = Inr children"
    "\<forall>c \<in> set children. \<not> coverage_eq (fst (coverage c)) (fst (coverage N))"
  from gmcs_stops[OF assms this]
  show "\<exists>r. get_maximum_common_subrule ev N = Some (Inr r)
                \<and> embeddings r = embeddings N \<and> n_pattern r = n_pattern N
                \<and> (\<exists>succs. successors_cache r = Some succs \<and> length succs = length children)" .
qed

text \<open>
  C8. \<open>get_maximum_common_subrule\<close> called on the node it returned returns that same node.
\<close>

theorem maximum_common_subrule_fixed_point:
  assumes "get_maximum_common_subrule ev N = Some (Inr r)"
  shows "get_maximum_common_subrule ev r = Some (Inr r)"
  using gmcs_fixed_point[OF assms] by simp

text \<open>
  C10. Two nodes whose embeddings have more than one distinct pattern each have an
  undefined pattern, compare equal and have the same hash, whatever their embeddings are;
  and for any nodes, equality and hash depend on the pattern only.
\<close>

theorem undefined_pattern_nodes_equal:
  assumes "length (py_set RuleGraph_eq (map e_pattern es1)) > 1"
      and "length (py_set RuleGraph_eq (map e_pattern es2)) > 1"
  shows "n_pattern (mk_LatticeNode es1) = None \<and> n_pattern (mk_LatticeNode es2) = None
       \<and> LatticeNode_eq (mk_LatticeNode es1) (mk_LatticeNode es2) = Inr True
       \<and> LatticeNode_hash ev (mk_LatticeNode es1) = LatticeNode_hash ev (mk_LatticeNode es2)
       \<and> (\<forall>a b c. n_pattern a = n_pattern b \<longrightarrow>
             LatticeNode_eq a c = LatticeNode_eq b c \<and> LatticeNode_eq c a = LatticeNode_eq c b
             \<and> LatticeNode_hash ev a = LatticeNode_hash ev b)"
  using assms by (auto simp: mk_LatticeNode_def LatticeNode_eq_def LatticeNode_hash_def Let_def)

section \<open>Distortion of registered candidates\<close>






section \<open>Merging extensions with equal patterns\<close>

lemma add_morphism_props:
  "set ms \<subseteq> set (add_morphism ms m)"
  "set (add_morphism ms m) \<subseteq> insert m (set ms)"
  "\<exists>m' \<in> set (add_morphism ms m). Morphism_eq m' m"
  "ms \<noteq> [] \<Longrightarrow> hd (add_morphism ms m) = hd ms"
  "ms \<noteq> [] \<Longrightarrow> add_morphism ms m \<noteq> []"
  by (auto simp: add_morphism_def set_add_def Morphism_eq_def)

lemma update_morphisms_result:
  "update_morphisms ms isos \<phi> = Inr ms1 \<Longrightarrow>
     set ms \<subseteq> set ms1
     \<and> (ms \<noteq> [] \<longrightarrow> ms1 \<noteq> [] \<and> hd ms1 = hd ms)
     \<and> (\<forall>x \<in> set isos. \<exists>\<iota> m. x = Inr \<iota> \<and> Morphism_add \<iota> \<phi> = Inr m \<and> (\<exists>m' \<in> set ms1. Morphism_eq m' m))
     \<and> (\<forall>m' \<in> set ms1. m' \<in> set ms \<or> (\<exists>\<iota>. Inr \<iota> \<in> set isos \<and> Morphism_add \<iota> \<phi> = Inr m'))"
proof (induction ms isos \<phi> arbitrary: ms1 rule: update_morphisms.induct)
  case (1 ms pattern_morphism)
  then show ?case by simp
next
  case (2 ms e rest pattern_morphism)
  then show ?case by simp
next
  case (3 ms isomorphism rest pattern_morphism)
  from 3(2) obtain m where m: "Morphism_add isomorphism pattern_morphism = Inr m"
    and r: "update_morphisms (add_morphism ms m) rest pattern_morphism = Inr ms1"
    by (auto split: sum.splits)
  note ih = 3(1)[OF m r]
  from add_morphism_props(3)[of ms m] obtain m0 where m0: "m0 \<in> set (add_morphism ms m)" "Morphism_eq m0 m"
    by blast
  have a: "set ms \<subseteq> set ms1" using ih add_morphism_props(1)[of ms m] by blast
  have b: "ms \<noteq> [] \<longrightarrow> ms1 \<noteq> [] \<and> hd ms1 = hd ms"
    using ih add_morphism_props(4,5)[of ms m] by auto
  have c: "\<forall>x \<in> set (Inr isomorphism # rest). \<exists>\<iota> m. x = Inr \<iota> \<and> Morphism_add \<iota> pattern_morphism = Inr m
             \<and> (\<exists>m' \<in> set ms1. Morphism_eq m' m)"
  proof
    fix x assume "x \<in> set (Inr isomorphism # rest)"
    then consider "x = Inr isomorphism" | "x \<in> set rest" by auto
    then show "\<exists>\<iota> m. x = Inr \<iota> \<and> Morphism_add \<iota> pattern_morphism = Inr m \<and> (\<exists>m' \<in> set ms1. Morphism_eq m' m)"
    proof cases
      case 1
      have "m0 \<in> set ms1" using ih m0(1) by blast
      with 1 m m0(2) show ?thesis by blast
    next
      case 2
      with ih show ?thesis by blast
    qed
  qed
  have d: "\<forall>m' \<in> set ms1. m' \<in> set ms
             \<or> (\<exists>\<iota>. Inr \<iota> \<in> set (Inr isomorphism # rest) \<and> Morphism_add \<iota> pattern_morphism = Inr m')"
  proof
    fix m' assume "m' \<in> set ms1"
    with ih have "m' \<in> set (add_morphism ms m)
        \<or> (\<exists>\<iota>. Inr \<iota> \<in> set rest \<and> Morphism_add \<iota> pattern_morphism = Inr m')" by blast
    then show "m' \<in> set ms
             \<or> (\<exists>\<iota>. Inr \<iota> \<in> set (Inr isomorphism # rest) \<and> Morphism_add \<iota> pattern_morphism = Inr m')"
    proof
      assume "m' \<in> set (add_morphism ms m)"
      with add_morphism_props(2)[of ms m] have "m' = m \<or> m' \<in> set ms" by auto
      with m show ?thesis by auto
    next
      assume "\<exists>\<iota>. Inr \<iota> \<in> set rest \<and> Morphism_add \<iota> pattern_morphism = Inr m'"
      then show ?thesis by auto
    qed
  qed
  from a b c d show ?case by blast
qed

lemma find_pattern_unique:
  "distinct (pattern_keys acc) \<Longrightarrow> (p, ms) \<in> set acc \<Longrightarrow> RuleGraph_eq p q \<Longrightarrow>
     find (\<lambda>(other_pattern, ms). RuleGraph_eq other_pattern q) acc = Some (p, ms)"
proof (induction acc)
  case Nil
  then show ?case by simp
next
  case (Cons a acc)
  obtain fp fms where a: "a = (fp, fms)" by (cases a)
  show ?case
  proof (cases "(p, ms) = a")
    case True
    with Cons.prems(3) a show ?thesis by simp
  next
    case False
    with Cons.prems(2) have mem: "(p, ms) \<in> set acc" by simp
    then have "canonical_smiles (rg_graph p) \<in> set (pattern_keys acc)"
      by (force simp: pattern_keys_def)
    with Cons.prems(1) a have "canonical_smiles (rg_graph fp) \<noteq> canonical_smiles (rg_graph p)"
      by (auto simp: pattern_keys_def)
    with Cons.prems(3) have "\<not> RuleGraph_eq fp q" by (simp add: RuleGraph_eq_def)
    moreover have "distinct (pattern_keys acc)" using Cons.prems(1) by (simp add: pattern_keys_def)
    ultimately show ?thesis using Cons.IH[OF _ mem Cons.prems(3)] a by simp
  qed
qed

lemma find_pattern_None:
  "find (\<lambda>(other_pattern, ms). RuleGraph_eq other_pattern q) acc = None
     \<Longrightarrow> canonical_smiles (rg_graph q) \<notin> set (pattern_keys acc)"
  by (induction acc) (auto simp: pattern_keys_def RuleGraph_eq_def split: if_splits)

lemma pattern_keys_update:
  "pattern_keys (map (\<lambda>(p, old). if RuleGraph_eq p q then (p, ms') else (p, old)) acc) = pattern_keys acc"
  by (induction acc) (auto simp: pattern_keys_def)

lemma build_patterns_entry:
  assumes "distinct (pattern_keys acc)"
      and "build_patterns ev acc (map Inr its) = Inr res"
      and "(p, ms) \<in> set acc" and "ms \<noteq> []"
  shows "distinct (pattern_keys res)
       \<and> (\<exists>ms'. (p, ms') \<in> set res \<and> hd ms' = hd ms \<and> set ms \<subseteq> set ms'
            \<and> (\<forall>(q, \<psi>) \<in> set its. RuleGraph_eq p q \<longrightarrow>
                  (\<forall>x \<in> set (isomorphisms ev q p). \<exists>\<iota> m. x = Inr \<iota> \<and> Morphism_add \<iota> \<psi> = Inr m
                       \<and> (\<exists>m' \<in> set ms'. Morphism_eq m' m)))
            \<and> (\<forall>m' \<in> set ms'. m' \<in> set ms
                  \<or> (\<exists>(q, \<psi>) \<in> set its. RuleGraph_eq p q
                        \<and> (\<exists>\<iota>. Inr \<iota> \<in> set (isomorphisms ev q p) \<and> Morphism_add \<iota> \<psi> = Inr m'))))"
  using assms
proof (induction its arbitrary: acc ms)
  case Nil
  then show ?case by auto
next
  case (Cons it its)
  obtain q \<psi> where it: "it = (q, \<psi>)" by (cases it)
  show ?case
  proof (cases "find (\<lambda>(other_pattern, ms). RuleGraph_eq other_pattern q) acc")
    case None
    let ?acc' = "acc @ [(q, [\<psi>])]"
    from Cons.prems(2) it None have r: "build_patterns ev ?acc' (map Inr its) = Inr res" by simp
    have d: "distinct (pattern_keys ?acc')"
      using Cons.prems(1) find_pattern_None[OF None] by (simp add: pattern_keys_def)
    have mem: "(p, ms) \<in> set ?acc'" using Cons.prems(3) by simp
    have neq: "\<not> RuleGraph_eq p q"
    proof
      assume "RuleGraph_eq p q"
      from find_pattern_unique[OF Cons.prems(1) Cons.prems(3) this] None show False by simp
    qed
    from Cons.IH[OF d r mem Cons.prems(4)] neq it show ?thesis by auto
  next
    case (Some a)
    obtain orig oms where a: "a = (orig, oms)" by (cases a)
    from Cons.prems(2) it Some a obtain ms1 where
      u: "update_morphisms oms (isomorphisms ev q orig) \<psi> = Inr ms1"
      and r: "build_patterns ev (map (\<lambda>(p, old). if RuleGraph_eq p q then (p, ms1) else (p, old)) acc)
                (map Inr its) = Inr res"
      by (auto split: sum.splits)
    let ?acc' = "map (\<lambda>(p, old). if RuleGraph_eq p q then (p, ms1) else (p, old)) acc"
    have d: "distinct (pattern_keys ?acc')" using Cons.prems(1) by (simp add: pattern_keys_update)
    note ur = update_morphisms_result[OF u]
    show ?thesis
    proof (cases "RuleGraph_eq p q")
      case True
      from find_pattern_unique[OF Cons.prems(1) Cons.prems(3) True] Some a
      have o: "orig = p" "oms = ms" by simp_all
      have mem: "(p, ms1) \<in> set ?acc'" using Cons.prems(3) True by force
      have ne: "ms1 \<noteq> []" using ur o Cons.prems(4) by blast
      from Cons.IH[OF d r mem ne] obtain ms' where ih:
        "distinct (pattern_keys res)" "(p, ms') \<in> set res" "hd ms' = hd ms1" "set ms1 \<subseteq> set ms'"
        "\<forall>(q, \<psi>) \<in> set its. RuleGraph_eq p q \<longrightarrow>
                  (\<forall>x \<in> set (isomorphisms ev q p). \<exists>\<iota> m. x = Inr \<iota> \<and> Morphism_add \<iota> \<psi> = Inr m
                       \<and> (\<exists>m' \<in> set ms'. Morphism_eq m' m))"
        "\<forall>m' \<in> set ms'. m' \<in> set ms1
                  \<or> (\<exists>(q, \<psi>) \<in> set its. RuleGraph_eq p q
                        \<and> (\<exists>\<iota>. Inr \<iota> \<in> set (isomorphisms ev q p) \<and> Morphism_add \<iota> \<psi> = Inr m'))"
        by blast
      have 1: "hd ms' = hd ms" using ih(3) ur o Cons.prems(4) by simp
      have 2: "set ms \<subseteq> set ms'" using ih(4) ur o by blast
      have 3: "\<forall>(q', \<psi>') \<in> set (it # its). RuleGraph_eq p q' \<longrightarrow>
                  (\<forall>x \<in> set (isomorphisms ev q' p). \<exists>\<iota> m. x = Inr \<iota> \<and> Morphism_add \<iota> \<psi>' = Inr m
                       \<and> (\<exists>m' \<in> set ms'. Morphism_eq m' m))"
      proof -
        have "\<forall>x \<in> set (isomorphisms ev q p). \<exists>\<iota> m. x = Inr \<iota> \<and> Morphism_add \<iota> \<psi> = Inr m
                       \<and> (\<exists>m' \<in> set ms'. Morphism_eq m' m)"
          using ur o ih(4) by blast
        with ih(5) it show ?thesis by simp
      qed
      have 4: "\<forall>m' \<in> set ms'. m' \<in> set ms
                  \<or> (\<exists>(q', \<psi>') \<in> set (it # its). RuleGraph_eq p q'
                        \<and> (\<exists>\<iota>. Inr \<iota> \<in> set (isomorphisms ev q' p) \<and> Morphism_add \<iota> \<psi>' = Inr m'))"
      proof
        fix m' assume "m' \<in> set ms'"
        with ih(6) consider "m' \<in> set ms1"
          | "\<exists>(q, \<psi>) \<in> set its. RuleGraph_eq p q
                        \<and> (\<exists>\<iota>. Inr \<iota> \<in> set (isomorphisms ev q p) \<and> Morphism_add \<iota> \<psi> = Inr m')"
          by blast
        then show "m' \<in> set ms
                  \<or> (\<exists>(q', \<psi>') \<in> set (it # its). RuleGraph_eq p q'
                        \<and> (\<exists>\<iota>. Inr \<iota> \<in> set (isomorphisms ev q' p) \<and> Morphism_add \<iota> \<psi>' = Inr m'))"
        proof cases
          case 1
          with ur o have "m' \<in> set ms \<or> (\<exists>\<iota>. Inr \<iota> \<in> set (isomorphisms ev q p) \<and> Morphism_add \<iota> \<psi> = Inr m')"
            by blast
          with True it show ?thesis by auto
        next
          case 2
          then show ?thesis by auto
        qed
      qed
      from ih(1,2) 1 2 3 4 show ?thesis by blast
    next
      case False
      have mem: "(p, ms) \<in> set ?acc'" using Cons.prems(3) False by force
      from Cons.IH[OF d r mem Cons.prems(4)] False it show ?thesis by auto
    qed
  qed
qed

lemma build_patterns_append:
  "build_patterns ev acc (xs @ ys)
     = (case build_patterns ev acc xs of Inl e \<Rightarrow> Inl e | Inr acc' \<Rightarrow> build_patterns ev acc' ys)"
  by (induction ev acc xs rule: build_patterns.induct) (auto split: option.splits sum.splits)

lemma build_patterns_keys:
  "distinct (pattern_keys acc) \<Longrightarrow> build_patterns ev acc (map Inr its) = Inr res \<Longrightarrow>
     distinct (pattern_keys res)
     \<and> set (pattern_keys res) = set (pattern_keys acc) \<union> (\<lambda>(q, \<psi>). canonical_smiles (rg_graph q)) ` set its"
proof (induction its arbitrary: acc)
  case Nil
  then show ?case by simp
next
  case (Cons it its)
  obtain q \<psi> where it: "it = (q, \<psi>)" by (cases it)
  show ?case
  proof (cases "find (\<lambda>(other_pattern, ms). RuleGraph_eq other_pattern q) acc")
    case None
    let ?acc' = "acc @ [(q, [\<psi>])]"
    from Cons.prems(2) it None have r: "build_patterns ev ?acc' (map Inr its) = Inr res" by simp
    have d: "distinct (pattern_keys ?acc')"
      using Cons.prems(1) find_pattern_None[OF None] by (simp add: pattern_keys_def)
    from Cons.IH[OF d r] it show ?thesis by (auto simp: pattern_keys_def)
  next
    case (Some a)
    obtain orig oms where a: "a = (orig, oms)" by (cases a)
    from Cons.prems(2) it Some a obtain ms1 where
      r: "build_patterns ev (map (\<lambda>(p, old). if RuleGraph_eq p q then (p, ms1) else (p, old)) acc)
                (map Inr its) = Inr res"
      by (auto split: sum.splits)
    let ?acc' = "map (\<lambda>(p, old). if RuleGraph_eq p q then (p, ms1) else (p, old)) acc"
    have d: "distinct (pattern_keys ?acc')" using Cons.prems(1) by (simp add: pattern_keys_update)
    from Some a have "(orig, oms) \<in> set acc" "RuleGraph_eq orig q"
      by (auto simp: find_Some_iff in_set_conv_nth)
    then have "canonical_smiles (rg_graph q) \<in> set (pattern_keys acc)"
      by (force simp: pattern_keys_def RuleGraph_eq_def)
    with Cons.IH[OF d r] it show ?thesis by (auto simp: pattern_keys_update)
  qed
qed

lemma pattern_entry_unique:
  "distinct (pattern_keys res) \<Longrightarrow> (p, ms) \<in> set res \<Longrightarrow> (p, ms') \<in> set res \<Longrightarrow> ms' = ms"
proof (induction res)
  case Nil
  then show ?case by simp
next
  case (Cons a res)
  have k: "\<And>x. (p, x) \<in> set res \<Longrightarrow> canonical_smiles (rg_graph p) \<in> set (pattern_keys res)"
    by (force simp: pattern_keys_def)
  from Cons.prems(1) have d: "distinct (pattern_keys res)"
    and n: "(\<lambda>(p, ms). canonical_smiles (rg_graph p)) a \<notin> set (pattern_keys res)"
    by (simp_all add: pattern_keys_def)
  show ?case
  proof (cases "fst a = p")
    case True
    with n k have "\<And>x. (p, x) \<notin> set res" by (cases a) auto
    with Cons.prems(2,3) show ?thesis by auto
  next
    case False
    with Cons.prems(2,3) have "(p, ms) \<in> set res" "(p, ms') \<in> set res" by auto
    from Cons.IH[OF d this] show ?thesis .
  qed
qed

lemma build_patterns_first_seen:
  assumes res: "build_patterns ev [] (map Inr (pre @ (p, \<phi>) # post)) = Inr res"
      and first: "\<forall>(q, \<psi>) \<in> set pre. \<not> RuleGraph_eq q p"
  shows "distinct (pattern_keys res)
       \<and> (\<exists>ms'. (p, ms') \<in> set res \<and> hd ms' = \<phi> \<and> \<phi> \<in> set ms'
            \<and> (\<forall>(q, \<psi>) \<in> set post. RuleGraph_eq p q \<longrightarrow>
                  (\<forall>x \<in> set (isomorphisms ev q p). \<exists>\<iota> m. x = Inr \<iota> \<and> Morphism_add \<iota> \<psi> = Inr m
                       \<and> (\<exists>m' \<in> set ms'. Morphism_eq m' m)))
            \<and> (\<forall>m' \<in> set ms'. m' = \<phi>
                  \<or> (\<exists>(q, \<psi>) \<in> set post. RuleGraph_eq p q
                        \<and> (\<exists>\<iota>. Inr \<iota> \<in> set (isomorphisms ev q p) \<and> Morphism_add \<iota> \<psi> = Inr m'))))"
proof -
  from res obtain acc1 where a1: "build_patterns ev [] (map Inr pre) = Inr acc1"
    and r1: "build_patterns ev acc1 (map Inr ((p, \<phi>) # post)) = Inr res"
    by (auto simp: build_patterns_append split: sum.splits)
  have d0: "distinct (pattern_keys [])" by (simp add: pattern_keys_def)
  from build_patterns_keys[OF d0 a1] have d1: "distinct (pattern_keys acc1)"
    and k1: "set (pattern_keys acc1) = (\<lambda>(q, \<psi>). canonical_smiles (rg_graph q)) ` set pre"
    by (simp_all add: pattern_keys_def)
  have nk: "canonical_smiles (rg_graph p) \<notin> set (pattern_keys acc1)"
    using k1 first by (auto simp: RuleGraph_eq_def)
  have fn: "find (\<lambda>(other_pattern, ms). RuleGraph_eq other_pattern p) acc1 = None"
  proof (cases "find (\<lambda>(other_pattern, ms). RuleGraph_eq other_pattern p) acc1")
    case (Some a)
    then obtain orig oms where "(orig, oms) \<in> set acc1" "RuleGraph_eq orig p"
      by (cases a) (auto simp: find_Some_iff in_set_conv_nth)
    then have "canonical_smiles (rg_graph p) \<in> set (pattern_keys acc1)"
      by (force simp: pattern_keys_def RuleGraph_eq_def)
    with nk show ?thesis by simp
  qed simp
  let ?acc2 = "acc1 @ [(p, [\<phi>])]"
  from r1 fn have r2: "build_patterns ev ?acc2 (map Inr post) = Inr res" by simp
  have d2: "distinct (pattern_keys ?acc2)" using d1 nk by (simp add: pattern_keys_def)
  have mem: "(p, [\<phi>]) \<in> set ?acc2" by simp
  from build_patterns_entry[OF d2 r2 mem] show ?thesis by auto
qed

text \<open>
  C6 (as the code has it). Let the extension steps of an embedding raise nothing, and let
  \<open>(p, \<phi>)\<close> be the first step that produces the pattern \<open>p\<close> (up to equality of patterns).
  Then \<open>extensions\<close> yields the embedding of \<open>p\<close> with the morphism \<open>\<phi>\<close> as produced; for every
  later step \<open>(q, \<psi>)\<close> with a pattern equal to \<open>p\<close> and every isomorphism \<open>\<iota>\<close> that
  \<open>q.isomorphisms(p)\<close> yields, it yields an embedding of \<open>p\<close> whose morphism equals \<open>\<iota> + \<psi>\<close>;
  and it yields nothing else for \<open>p\<close>. The first morphism is not composed with the
  automorphisms of \<open>p\<close>.
\<close>

theorem extensions_merge_equal_patterns:
  assumes gen: "label_specifications ev self
                  @ (if number_of_edges (rg_graph (e_pattern self))
                          < number_of_edges (rg_graph (maximal_subrule (host_transition self)))
                     then edge_additions ev self else [])
                = map Inr (pre @ (p, \<phi>) # post)"
      and first: "\<forall>(q, \<psi>) \<in> set pre. \<not> RuleGraph_eq q p"
      and ext: "extensions ev self = Inr es"
  shows "mk_Embedding p (host_transition self) \<phi> \<in> set es
       \<and> (\<forall>(q, \<psi>) \<in> set post. RuleGraph_eq p q \<longrightarrow>
             (\<forall>x \<in> set (isomorphisms ev q p). \<exists>\<iota> m. x = Inr \<iota> \<and> Morphism_add \<iota> \<psi> = Inr m
                  \<and> (\<exists>e' \<in> set es. e_pattern e' = p \<and> Morphism_eq (morphism e') m)))
       \<and> (\<forall>e' \<in> set es. e_pattern e' = p \<longrightarrow>
             morphism e' = \<phi>
             \<or> (\<exists>(q, \<psi>) \<in> set post. RuleGraph_eq p q
                   \<and> (\<exists>\<iota>. Inr \<iota> \<in> set (isomorphisms ev q p) \<and> Morphism_add \<iota> \<psi> = Inr (morphism e'))))"
proof -
  from ext gen obtain res where res: "build_patterns ev [] (map Inr (pre @ (p, \<phi>) # post)) = Inr res"
    and es: "es = concat (map (\<lambda>(pattern, morphisms).
                                 map (\<lambda>m. mk_Embedding pattern (host_transition self) m) morphisms) res)"
    by (auto simp: extensions_def build_embeddings_def split: sum.splits)
  from build_patterns_first_seen[OF res first] obtain ms' where
    d: "distinct (pattern_keys res)" and mem: "(p, ms') \<in> set res" and hd: "\<phi> \<in> set ms'"
    and later: "\<forall>(q, \<psi>) \<in> set post. RuleGraph_eq p q \<longrightarrow>
                  (\<forall>x \<in> set (isomorphisms ev q p). \<exists>\<iota> m. x = Inr \<iota> \<and> Morphism_add \<iota> \<psi> = Inr m
                       \<and> (\<exists>m' \<in> set ms'. Morphism_eq m' m))"
    and only: "\<forall>m' \<in> set ms'. m' = \<phi>
                  \<or> (\<exists>(q, \<psi>) \<in> set post. RuleGraph_eq p q
                        \<and> (\<exists>\<iota>. Inr \<iota> \<in> set (isomorphisms ev q p) \<and> Morphism_add \<iota> \<psi> = Inr m'))"
    by blast
  have inc: "\<And>m. m \<in> set ms' \<Longrightarrow> mk_Embedding p (host_transition self) m \<in> set es"
    unfolding es using mem by force
  have 1: "mk_Embedding p (host_transition self) \<phi> \<in> set es" using inc[OF hd] .
  have 2: "\<forall>(q, \<psi>) \<in> set post. RuleGraph_eq p q \<longrightarrow>
             (\<forall>x \<in> set (isomorphisms ev q p). \<exists>\<iota> m. x = Inr \<iota> \<and> Morphism_add \<iota> \<psi> = Inr m
                  \<and> (\<exists>e' \<in> set es. e_pattern e' = p \<and> Morphism_eq (morphism e') m))"
  proof (intro ballI, clarify)
    fix q \<psi> x assume q: "(q, \<psi>) \<in> set post" "RuleGraph_eq p q" "x \<in> set (isomorphisms ev q p)"
    with later obtain \<iota> m m' where x: "x = Inr \<iota>" "Morphism_add \<iota> \<psi> = Inr m" "m' \<in> set ms'" "Morphism_eq m' m"
      by blast
    have "e_pattern (mk_Embedding p (host_transition self) m') = p"
      "morphism (mk_Embedding p (host_transition self) m') = m'"
      by (simp_all add: mk_Embedding_def)
    with inc[OF x(3)] x show "\<exists>\<iota> m. x = Inr \<iota> \<and> Morphism_add \<iota> \<psi> = Inr m
                  \<and> (\<exists>e' \<in> set es. e_pattern e' = p \<and> Morphism_eq (morphism e') m)"
      by metis
  qed
  have 3: "\<forall>e' \<in> set es. e_pattern e' = p \<longrightarrow>
             morphism e' = \<phi>
             \<or> (\<exists>(q, \<psi>) \<in> set post. RuleGraph_eq p q
                   \<and> (\<exists>\<iota>. Inr \<iota> \<in> set (isomorphisms ev q p) \<and> Morphism_add \<iota> \<psi> = Inr (morphism e')))"
  proof (intro ballI impI)
    fix e' assume e': "e' \<in> set es" "e_pattern e' = p"
    from e'(1) obtain p2 ms2 m where pm: "(p2, ms2) \<in> set res" "m \<in> set ms2"
      "e' = mk_Embedding p2 (host_transition self) m"
      unfolding es by auto
    from pm(3) e'(2) have p2: "p2 = p" by (simp add: mk_Embedding_def)
    from pattern_entry_unique[OF d mem] pm(1) p2 have "ms2 = ms'" by simp
    with pm(2) have "m \<in> set ms'" by simp
    moreover have "morphism e' = m" using pm(3) by (simp add: mk_Embedding_def)
    ultimately show "morphism e' = \<phi>
             \<or> (\<exists>(q, \<psi>) \<in> set post. RuleGraph_eq p q
                   \<and> (\<exists>\<iota>. Inr \<iota> \<in> set (isomorphisms ev q p) \<and> Morphism_add \<iota> \<psi> = Inr (morphism e')))"
      using only by blast
  qed
  from 1 2 3 show ?thesis by blast
qed

section \<open>The minimal subrule\<close>


























section \<open>Concrete runs\<close>

lemmas ex_env_defs =
  ex_env_def ex_canonicalise_gml_def ex_smiles_def ex_edge_code_def ex_connected_components_def
  ex_ruleGMLString_def ex_side_label_def ex_edge_label_def ex_match_ok_def
  ex_subgraph_monomorphisms_iter_def ex_isomorphisms_iter_def ex_rule_graph_def

lemmas nx_defs =
  nx_empty_def nx_add_node_def nx_add_edge_def nx_has_edge_def nx_edges_at_def same_edge_def
  nx_set_node_label_def nx_set_edge_label_def graph_to_nx_graph_def

lemmas rule_graph_defs =
  mk_RuleGraph_def RuleGraph_eq_def RuleGraph_lt_def has_abstract_label_def find_modified_nodes_def
  nx_graph_to_mod_graph_def element_label_def is_relabeled_def split_element_label_def
  abstract_vertices_def abstract_edges_def abstract_elements_def get_vertex_def get_edge_def
  get_adjacent_edges_def back_morphism_def relabel_element_def relabel_element_left_def
  relabel_element_right_def add_edge_def match_to_morphism_def equal_elements_def
  compare_elements_def isomorphisms_def embed_def is_combined_def split_label_def
  combine_labels_def truthy_def leave_generator_def

lemmas embedding_defs =
  mk_Embedding_def Embedding_eq_def Transition_eq_def edge_to_hashable_def pattern_edge_to_host_def
  edge_addition_def edge_additions_at_def edge_additions_def label_specification_def
  label_specifications_def add_morphism_def set_add_def build_embeddings_def number_of_edges_def
  extensions_def mk_Morphism_def Morphism_add_def Morphism_eq_def items_def getitem_def dict_of_def

lemmas lattice_defs =
  py_set_def mk_LatticeNode_def host_transitions_def sorted_transitions_def coverage_def
  coverage_eq_def add_embedding_def group_extension_def successors_truthy_def successors_def
  set_successors_def

lemma show_nat_digits [simp]:
  "show_nat 0 = ''0''" "show_nat 1 = ''1''" "show_nat 2 = ''2''" "show_nat 3 = ''3''" "show_nat 4 = ''4''"
  by code_simp+

lemma ex_extensions_min0: "extensions ex_env ex_min0 = Inr [ex_spec0]"
  by (simp add: ex_min0_def ex_spec0_def ex_host0_def ex_env_defs nx_defs rule_graph_defs embedding_defs
       Let_def)

lemma ex_successors_min0: "successors ex_env (mk_LatticeNode [ex_min0]) = Inr [mk_LatticeNode [ex_spec0]]"
  by (simp add: successors_def ex_extensions_min0 mk_LatticeNode_def py_set_def set_add_def successors_truthy_def
        group_extension_def add_embedding_def Let_def)

lemma ex_extensions_spec0: "extensions ex_env ex_spec0 = Inr []"
  by (simp add: ex_spec0_def ex_host0_def ex_env_defs nx_defs rule_graph_defs embedding_defs
       Let_def)

lemma ex_gmcs_min0: "get_maximum_common_subrule ex_env (mk_LatticeNode [ex_min0]) = Some (Inr ex_mcs0)"
  apply (subst get_maximum_common_subrule.simps)
  apply (simp add: ex_successors_min0)
  apply (simp add: mk_LatticeNode_def py_set_def set_add_def successors_truthy_def coverage_def
      host_transitions_def sorted_transitions_def coverage_eq_def Transition_eq_def RuleGraph_eq_def
      ex_spec0_def ex_min0_def mk_Embedding_def Let_def)
  apply (subst get_maximum_common_subrule.simps)
  apply (simp add: successors_def successors_truthy_def ex_extensions_spec0[unfolded ex_spec0_def mk_Embedding_def]
      group_extension_def set_successors_def ex_mcs0_def ex_spec0_def mk_Embedding_def Let_def)
  done

lemma ex_extensions_a: "extensions ex_env ex_min_a = Inr [ex_spec_a]"
  by (simp add: ex_min_a_def ex_spec_a_def ex_host_a_def ex_env_defs nx_defs rule_graph_defs embedding_defs
       Let_def)

lemma ex_extensions_c: "extensions ex_env ex_min_c = Inr [ex_spec_c]"
  by (simp add: ex_min_c_def ex_spec_c_def ex_host_c_def ex_env_defs nx_defs rule_graph_defs embedding_defs
       Let_def)

lemma ex_patterns:
  "RuleGraph_eq (e_pattern ex_min_a) (e_pattern ex_min_c)"
  "\<not> RuleGraph_eq (e_pattern ex_spec_a) (e_pattern ex_spec_c)"
  "\<not> Transition_eq ex_host_a ex_host_c"
  by (simp_all add: ex_min_a_def ex_min_c_def ex_spec_a_def ex_spec_c_def ex_host_a_def ex_host_c_def
        mk_Embedding_def RuleGraph_eq_def Transition_eq_def ex_env_defs mk_RuleGraph_def)

lemma ex_successors_root:
  "successors ex_env (mk_LatticeNode [ex_min_a, ex_min_c])
     = Inr [mk_LatticeNode [ex_spec_a], mk_LatticeNode [ex_spec_c]]"
  using ex_patterns
  by (simp add: successors_def ex_extensions_a ex_extensions_c mk_LatticeNode_def py_set_def set_add_def
        successors_truthy_def group_extension_def add_embedding_def Let_def)

lemma ex_gmcs_root:
  "get_maximum_common_subrule ex_env (mk_LatticeNode [ex_min_a, ex_min_c]) = Some (Inr ex_root)"
  apply (subst get_maximum_common_subrule.simps)
  apply (simp add: ex_successors_root)
  apply (insert ex_patterns)
  apply (simp add: mk_LatticeNode_def py_set_def set_add_def successors_truthy_def coverage_def
      host_transitions_def sorted_transitions_def coverage_eq_def set_successors_def ex_root_def Let_def)
  apply (simp add: ex_spec_a_def ex_spec_c_def ex_min_a_def ex_min_c_def mk_Embedding_def
      ex_host_a_def ex_host_c_def ex_env_defs mk_RuleGraph_def Transition_eq_def RuleGraph_eq_def)
  done



lemma ex_root_distortion:
  "filter_can_embed ex_env (n_pattern ex_root) [ex_host_d, ex_host_e] = Inr [ex_host_d, ex_host_e]"
  by (simp add: ex_root_def ex_min_a_def ex_host_d_def ex_host_e_def can_embed_def ex_env_defs nx_defs
        rule_graph_defs mk_Embedding_def mk_Morphism_def Morphism_neg_def dict_of_def items_def
        compare_labels.simps Let_def)





lemma ex_scan_min0:
  "scan_children (mk_LatticeNode [ex_min0]) [mk_LatticeNode [ex_spec0]] []
     = (LatticeNode [ex_min0] (Some (e_pattern ex_min0)) (Some [ex_host0]) None,
        Inl (LatticeNode [ex_spec0] (Some (e_pattern ex_spec0)) (Some [ex_host0]) None))"
  by (simp add: mk_LatticeNode_def py_set_def set_add_def coverage_def
      host_transitions_def sorted_transitions_def coverage_eq_def Transition_eq_def RuleGraph_eq_def
      ex_spec0_def ex_min0_def mk_Embedding_def Let_def)

lemma ex_successors_spec0:
  "successors ex_env (LatticeNode [ex_spec0] (Some (e_pattern ex_spec0)) (Some [ex_host0]) None) = Inr []"
  by (simp add: successors_def successors_truthy_def ex_extensions_spec0 group_extension_def Let_def)

lemma ex_descent_min0: "descent_ends ex_env (mk_LatticeNode [ex_min0])"
proof (rule descent_ends.descends[OF _ ex_successors_min0 ex_scan_min0])
  show "\<not> successors_truthy (mk_LatticeNode [ex_min0])"
    by (simp add: successors_truthy_def mk_LatticeNode_def Let_def)
  show "descent_ends ex_env (LatticeNode [ex_spec0] (Some (e_pattern ex_spec0)) (Some [ex_host0]) None)"
    by (rule descent_ends.stops[OF _ ex_successors_spec0, of "LatticeNode [ex_spec0] (Some (e_pattern ex_spec0)) (Some [ex_host0]) None" "[]"])
       (simp_all add: successors_truthy_def)
qed

theorem maximum_common_subrule_keeps_coverage_witness:
  "descent_ends ex_env (mk_LatticeNode [ex_min0])
   \<and> get_maximum_common_subrule ex_env (mk_LatticeNode [ex_min0]) = Some (Inr ex_mcs0)
   \<and> n_pattern (mk_LatticeNode [ex_min0]) = Some (e_pattern ex_min0)
   \<and> coverage_eq (fst (coverage ex_mcs0)) (fst (coverage (mk_LatticeNode [ex_min0])))
   \<and> fst (coverage ex_mcs0) = [ex_host0]
   \<and> successors ex_env (LatticeNode [ex_spec0] (Some (e_pattern ex_spec0)) (Some [ex_host0]) None) = Inr []
   \<and> get_maximum_common_subrule ex_env (LatticeNode [ex_spec0] (Some (e_pattern ex_spec0)) (Some [ex_host0]) None)
       = Some (Inr ex_mcs0)"
proof -
  have ok: "coverage_cache_ok (mk_LatticeNode [ex_min0])"
    by (simp add: coverage_cache_ok_def mk_LatticeNode_def Let_def)
  have p: "n_pattern (mk_LatticeNode [ex_min0]) = Some (e_pattern ex_min0)"
    by (simp add: mk_LatticeNode_def py_set_def set_add_def)
  have v: "fst (coverage ex_mcs0) = [ex_host0]" by (simp add: coverage_def ex_mcs0_def)
  let ?c = "LatticeNode [ex_spec0] (Some (e_pattern ex_spec0)) (Some [ex_host0]) None"
  have okc: "coverage_cache_ok ?c"
    by (simp add: coverage_cache_ok_def host_transitions_def py_set_def set_add_def sorted_transitions_def
          ex_spec0_def mk_Embedding_def)
  have ntc: "\<not> successors_truthy ?c" by (simp add: successors_truthy_def)
  from maximum_common_subrule_keeps_coverage[OF okc, of ex_env] ntc ex_successors_spec0
  obtain r where r: "get_maximum_common_subrule ex_env ?c = Some (Inr r)" by auto
  have s: "get_maximum_common_subrule ex_env ?c = Some (Inr ex_mcs0)"
    by (subst get_maximum_common_subrule.simps)
       (simp add: ex_successors_spec0 successors_truthy_def set_successors_def ex_mcs0_def)
  from maximum_common_subrule_keeps_coverage[OF ok, of ex_env] ex_descent_min0 ex_gmcs_min0 p v
    ex_successors_spec0 s
  show ?thesis by blast
qed

theorem maximum_common_subrule_fixed_point_witness:
  "get_maximum_common_subrule ex_env (mk_LatticeNode [ex_min_a, ex_min_c]) = Some (Inr ex_root)
   \<and> get_maximum_common_subrule ex_env ex_root = Some (Inr ex_root)
   \<and> get_maximum_common_subrule ex_env (mk_LatticeNode [ex_min0]) = Some (Inr ex_mcs0)
   \<and> get_maximum_common_subrule ex_env ex_mcs0 = Some (Inr ex_mcs0)"
  using maximum_common_subrule_fixed_point[OF ex_gmcs_root] ex_gmcs_root
        maximum_common_subrule_fixed_point[OF ex_gmcs_min0] ex_gmcs_min0
  by simp

theorem extensions_keep_host_transition_witness:
  "extensions ex_env ex_min_a = Inr [ex_spec_a]
   \<and> host_transition ex_spec_a = host_transition ex_min_a
   \<and> successors ex_env (mk_LatticeNode [ex_min_a, ex_min_c])
       = Inr [mk_LatticeNode [ex_spec_a], mk_LatticeNode [ex_spec_c]]
   \<and> host_transitions (mk_LatticeNode [ex_spec_a]) = [ex_host_a]
   \<and> ex_host_a \<in> host_transition ` set (embeddings (mk_LatticeNode [ex_min_a, ex_min_c]))
   \<and> (\<exists>t' \<in> set (host_transitions (mk_LatticeNode [ex_min_a, ex_min_c])). Transition_eq t' ex_host_a)"
proof -
  let ?N = "mk_LatticeNode [ex_min_a, ex_min_c]"
  have nt: "\<not> successors_truthy ?N" by (simp add: successors_truthy_def mk_LatticeNode_def Let_def)
  have h: "host_transitions (mk_LatticeNode [ex_spec_a]) = [ex_host_a]"
    by (simp add: host_transitions_def mk_LatticeNode_def py_set_def set_add_def ex_spec_a_def
          mk_Embedding_def Let_def)
  from extensions_keep_host_transition[of ex_env ex_min_a ?N] ex_extensions_a ex_successors_root nt h
  show ?thesis by simp
qed

theorem undefined_pattern_nodes_equal_witness:
  "n_pattern (mk_LatticeNode [ex_min_a, ex_spec_a]) = None
   \<and> n_pattern (mk_LatticeNode [ex_spec_c, ex_spec_a, ex_min_c]) = None
   \<and> LatticeNode_eq (mk_LatticeNode [ex_min_a, ex_spec_a]) (mk_LatticeNode [ex_spec_c, ex_spec_a, ex_min_c]) = Inr True
   \<and> LatticeNode_hash ex_env (mk_LatticeNode [ex_min_a, ex_spec_a])
       = LatticeNode_hash ex_env (mk_LatticeNode [ex_spec_c, ex_spec_a, ex_min_c])"
proof -
  have k: "canonical_smiles (rg_graph (e_pattern ex_min_a)) = ''[*;b]''"
    "canonical_smiles (rg_graph (e_pattern ex_min_c)) = ''[*;b]''"
    "canonical_smiles (rg_graph (e_pattern ex_spec_a)) = ''[a;b]''"
    "canonical_smiles (rg_graph (e_pattern ex_spec_c)) = ''[c;b]''"
    by (simp_all add: ex_min_a_def ex_min_c_def ex_spec_a_def ex_spec_c_def mk_Embedding_def ex_env_defs
          mk_RuleGraph_def)
  have 1: "length (py_set RuleGraph_eq (map e_pattern [ex_min_a, ex_spec_a])) > 1"
    by (simp add: py_set_def set_add_def RuleGraph_eq_def k)
  have 2: "length (py_set RuleGraph_eq (map e_pattern [ex_spec_c, ex_spec_a, ex_min_c])) > 1"
    by (simp add: py_set_def set_add_def RuleGraph_eq_def k)
  from undefined_pattern_nodes_equal[OF 1 2, of ex_env] show ?thesis by blast
qed

lemma show_nat_Suc [simp]:
  "show_nat (Suc 0) = ''1''" "show_nat (Suc (Suc 0)) = ''2''" "show_nat (Suc (Suc (Suc 0))) = ''3''"
  using show_nat_digits by (simp_all add: numeral_2_eq_2[symmetric] numeral_3_eq_3[symmetric])

lemma ex_chain_additions:
  "edge_additions ex_env ex_chain_embedding
     = [Inr (ex_chain4, mk_Morphism [(0, 0), (1, 1), (2, 2), (3, 3)]),
        Inr (ex_chain4, mk_Morphism [(0, 0), (1, 1), (2, 2), (3, 4)])]"
  by (simp add: ex_chain_embedding_def ex_chain_host_def ex_chain4_def ex_env_defs nx_defs rule_graph_defs
        embedding_defs Let_def)

lemma ex_chain_label_specifications:
  "label_specifications ex_env ex_chain_embedding = map Inr ex_chain_specifications"
  by (simp add: ex_chain_embedding_def ex_chain_host_def ex_chain_specifications_def ex_env_defs nx_defs
        rule_graph_defs embedding_defs Let_def)

lemma ex_chain_isomorphisms:
  "isomorphisms ex_env ex_chain4 ex_chain4
     = [Inr (mk_Morphism [(0, 0), (1, 1), (2, 2), (3, 3)]),
        Inr (mk_Morphism [(1, 0), (0, 1), (3, 2), (2, 3)])]"
  by (simp add: ex_chain4_def ex_env_defs nx_defs rule_graph_defs mk_Morphism_def dict_of_def Let_def)

lemma ex_chain_keys:
  "canonical_smiles (rg_graph ex_chain4) = ''[*][*][*][*](*,*,*)(*,*,*)(*,*,*;=)''"
  "map (\<lambda>(p, m). canonical_smiles (rg_graph p)) ex_chain_specifications
     = [''[*][*][C](*,C,*)(*,C,*;=)'', ''[*][*][C](*,*,*)(*,C,*;=)'', ''[*][*][C](*,*,*;=)(*,C,*)'',
        ''[*][*][*](*,*,*)(*,*,-;=)'', ''[*][*][*](*,*,*;=)(*,*,-)'']"
  by (simp_all add: ex_chain4_def ex_chain_specifications_def ex_env_defs mk_RuleGraph_def Let_def)

lemma ex_chain_edges:
  "number_of_edges (rg_graph (e_pattern ex_chain_embedding))
     < number_of_edges (rg_graph (maximal_subrule (host_transition ex_chain_embedding)))"
  by (simp add: number_of_edges_def ex_chain_embedding_def ex_chain_host_def mk_Embedding_def ex_env_defs
        mk_RuleGraph_def)

lemma ex_chain_extensions:
  "map_sum id (\<lambda>es. map (\<lambda>e. fingerprint (morphism e)) (filter (\<lambda>e. RuleGraph_eq (e_pattern e) ex_chain4) es))
     (extensions ex_env ex_chain_embedding)
   = Inr [[(0, 0), (1, 1), (2, 2), (3, 3)], [(0, 0), (1, 1), (2, 2), (3, 4)], [(0, 1), (1, 0), (2, 4), (3, 2)]]"
  using ex_chain_keys
  apply (simp add: extensions_def ex_chain_label_specifications ex_chain_additions ex_chain_edges
      build_embeddings_def ex_chain_specifications_def RuleGraph_eq_def ex_chain_isomorphisms)
  apply (simp add: mk_Morphism_def Morphism_add_def items_def getitem_def dict_of_def add_morphism_def
      set_add_def Morphism_eq_def mk_Embedding_def RuleGraph_eq_def)
  done

lemma ex_chain_generator:
  "label_specifications ex_env ex_chain_embedding
     @ (if number_of_edges (rg_graph (e_pattern ex_chain_embedding))
             < number_of_edges (rg_graph (maximal_subrule (host_transition ex_chain_embedding)))
        then edge_additions ex_env ex_chain_embedding else [])
   = map Inr (ex_chain_specifications @ (ex_chain4, mk_Morphism [(0, 0), (1, 1), (2, 2), (3, 3)])
                # [(ex_chain4, mk_Morphism [(0, 0), (1, 1), (2, 2), (3, 4)])])"
  by (simp add: ex_chain_label_specifications ex_chain_additions ex_chain_edges)

lemma ex_chain_first:
  "\<forall>(q, \<psi>) \<in> set ex_chain_specifications. \<not> RuleGraph_eq q ex_chain4"
proof -
  have "canonical_smiles (rg_graph ex_chain4)
          \<notin> set (map (\<lambda>(p, m). canonical_smiles (rg_graph p)) ex_chain_specifications)"
    unfolding ex_chain_keys by simp
  then show ?thesis by (force simp: RuleGraph_eq_def)
qed

lemma ex_chain_returns: "\<exists>es. extensions ex_env ex_chain_embedding = Inr es"
  using ex_chain_extensions by (cases "extensions ex_env ex_chain_embedding") auto

theorem extensions_merge_equal_patterns_witness:
  "\<exists>es. extensions ex_env ex_chain_embedding = Inr es
      \<and> mk_Embedding ex_chain4 ex_chain_host (mk_Morphism [(0, 0), (1, 1), (2, 2), (3, 3)]) \<in> set es
      \<and> (\<exists>e' \<in> set es. e_pattern e' = ex_chain4
            \<and> Morphism_eq (morphism e') (mk_Morphism [(1, 0), (0, 1), (3, 2), (2, 4)]))"
proof -
  from ex_chain_returns obtain es where es: "extensions ex_env ex_chain_embedding = Inr es" by blast
  have h: "host_transition ex_chain_embedding = ex_chain_host"
    by (simp add: ex_chain_embedding_def mk_Embedding_def)
  have a: "Morphism_add (mk_Morphism [(1, 0), (0, 1), (3, 2), (2, 3)]) (mk_Morphism [(0, 0), (1, 1), (2, 2), (3, 4)])
             = Inr (mk_Morphism [(1, 0), (0, 1), (3, 2), (2, 4)])"
    by (simp add: mk_Morphism_def Morphism_add_def items_def getitem_def dict_of_def)
  have e: "RuleGraph_eq ex_chain4 ex_chain4" by (simp add: RuleGraph_eq_def)
  from extensions_merge_equal_patterns[OF ex_chain_generator ex_chain_first es] h
  have 1: "mk_Embedding ex_chain4 ex_chain_host (mk_Morphism [(0, 0), (1, 1), (2, 2), (3, 3)]) \<in> set es"
    and 2: "\<forall>x \<in> set (isomorphisms ex_env ex_chain4 ex_chain4).
              \<exists>\<iota> m. x = Inr \<iota> \<and> Morphism_add \<iota> (mk_Morphism [(0, 0), (1, 1), (2, 2), (3, 4)]) = Inr m
                \<and> (\<exists>e' \<in> set es. e_pattern e' = ex_chain4 \<and> Morphism_eq (morphism e') m)"
    using e by simp_all
  from 2 have "\<exists>\<iota> m. Inr (mk_Morphism [(1, 0), (0, 1), (3, 2), (2, 3)]) = Inr \<iota>
        \<and> Morphism_add \<iota> (mk_Morphism [(0, 0), (1, 1), (2, 2), (3, 4)]) = Inr m
        \<and> (\<exists>e' \<in> set es. e_pattern e' = ex_chain4 \<and> Morphism_eq (morphism e') m)"
    unfolding ex_chain_isomorphisms by simp
  with a have 3: "\<exists>e' \<in> set es. e_pattern e' = ex_chain4
            \<and> Morphism_eq (morphism e') (mk_Morphism [(1, 0), (0, 1), (3, 2), (2, 4)])"
    by auto
  from es 1 3 show ?thesis by blast
qed

text \<open>
  The set yielded for a pattern need not be a complete orbit. The host has the relabeled
  edge \<open>0-1\<close> and the edges \<open>0-2\<close>, \<open>1-3\<close>, \<open>1-4\<close>; the pattern is \<open>2-0-1\<close>, embedded by the
  identity. Adding an edge at the pattern vertex \<open>1\<close> produces the chain \<open>2-0-1-3\<close> twice, with
  the new vertex on the host vertex \<open>3\<close> and on \<open>4\<close>. The chain has the reversal as an
  automorphism. The reversal composed with the second morphism is yielded; composed with
  the first morphism it is not.
\<close>

theorem extensions_orbit_counterexample:
  "edge_additions ex_env ex_chain_embedding
     = [Inr (ex_chain4, mk_Morphism [(0, 0), (1, 1), (2, 2), (3, 3)]),
        Inr (ex_chain4, mk_Morphism [(0, 0), (1, 1), (2, 2), (3, 4)])]
   \<and> isomorphisms ex_env ex_chain4 ex_chain4
     = [Inr (mk_Morphism [(0, 0), (1, 1), (2, 2), (3, 3)]),
        Inr (mk_Morphism [(1, 0), (0, 1), (3, 2), (2, 3)])]
   \<and> map_sum id (\<lambda>m. fingerprint m)
        (Morphism_add (mk_Morphism [(1, 0), (0, 1), (3, 2), (2, 3)]) (mk_Morphism [(0, 0), (1, 1), (2, 2), (3, 3)]))
     = Inr [(0, 1), (1, 0), (2, 3), (3, 2)]
   \<and> map_sum id (\<lambda>es. map (\<lambda>e. fingerprint (morphism e)) (filter (\<lambda>e. RuleGraph_eq (e_pattern e) ex_chain4) es))
        (extensions ex_env ex_chain_embedding)
     = Inr [[(0, 0), (1, 1), (2, 2), (3, 3)], [(0, 0), (1, 1), (2, 2), (3, 4)], [(0, 1), (1, 0), (2, 4), (3, 2)]]
   \<and> [(0, 1), (1, 0), (2, 3), (3, 2)]
       \<notin> set [[(0, 0), (1, 1), (2, 2), (3, 3)], [(0, 0), (1, 1), (2, 2), (3, 4)], [(0, 1), (1, 0), (2, 4), (3, 2 :: nat)]]"
proof -
  have a: "map_sum id (\<lambda>m. fingerprint m)
        (Morphism_add (mk_Morphism [(1, 0), (0, 1), (3, 2), (2, 3)]) (mk_Morphism [(0, 0), (1, 1), (2, 2), (3, 3)]))
     = Inr [(0, 1), (1, 0), (2, 3), (3, 2)]"
    by (simp add: mk_Morphism_def Morphism_add_def items_def getitem_def dict_of_def)
  show ?thesis using ex_chain_additions ex_chain_isomorphisms ex_chain_extensions a by simp
qed












end
